theory Spec2Isabelle
  imports Main
begin

section \<open>Values, boards and squares\<close>

text \<open>
  The engine of \<^verbatim>\<open>src/chess.js\<close> works on a JavaScript array of eight arrays of
  one-character strings (\<^verbatim>\<open>''\<close> for an empty square, an upper-case letter for a white
  piece, a lower-case letter for a black one). Reading \<^verbatim>\<open>board[r][c]\<close> has three
  outcomes in JavaScript: a \<^verbatim>\<open>TypeError\<close> when \<^verbatim>\<open>board[r]\<close> is \<^verbatim>\<open>undefined\<close>
  (row index outside the array), the value \<^verbatim>\<open>undefined\<close> when only the column index
  is outside the row, and the stored string otherwise. All three are kept.
\<close>

text \<open>
  \<open>TypeError\<close> is the one exception the engine can raise: reading or writing a property
  of \<^verbatim>\<open>undefined\<close>. \<open>NotModelled\<close> marks two writes that a board of strings cannot
  hold (see \<open>setCell\<close>).
\<close>

datatype error = TypeError | NotModelled

type_synonym 'a result = "error + 'a"

text \<open>A value read from the board: \<open>None\<close> is JavaScript's \<^verbatim>\<open>undefined\<close>.\<close>

type_synonym jsval = "string option"

type_synonym board = "string list list"

text \<open>A square as the source passes it: \<^verbatim>\<open>{ row, col }\<close>.\<close>

record square =
  row :: int
  col :: int

text \<open>
  The side: the source uses the two strings \<^verbatim>\<open>'white'\<close> and \<^verbatim>\<open>'black'\<close>, and
  no other value is ever stored in \<^verbatim>\<open>currentPlayer\<close> or passed as a colour.
\<close>

datatype color = White | Black

text \<open>The squares read so far, in order, as (row index, column index).\<close>

type_synonym reads = "(int \<times> int) list"

text \<open>
  A computation may not return (\<open>None\<close>), may throw (\<open>Some (Inl e)\<close>) or may return
  a value (\<open>Some (Inr x)\<close>).
\<close>

type_synonym 'a comp = "'a result option"

definition ret :: "'a \<Rightarrow> 'a comp" where
  "ret x = Some (Inr x)"

definition throw :: "error \<Rightarrow> 'a comp" where
  "throw e = Some (Inl e)"

definition bindR :: "'a comp \<Rightarrow> ('a \<Rightarrow> 'b comp) \<Rightarrow> 'b comp" where
  "bindR m k = (case m of None \<Rightarrow> None | Some (Inl e) \<Rightarrow> Some (Inl e) | Some (Inr x) \<Rightarrow> k x)"

definition index :: "'a list \<Rightarrow> int \<Rightarrow> 'a option" where
  "index xs i = (if 0 \<le> i \<and> i < int (length xs) then Some (xs ! nat i) else None)"

definition cell :: "board \<Rightarrow> int \<Rightarrow> int \<Rightarrow> jsval result" where
  "cell board r c = (case index board r of None \<Rightarrow> Inl TypeError | Some rw \<Rightarrow> Inr (index rw c))"

definition truthy :: "jsval \<Rightarrow> bool" where
  "truthy v = (case v of None \<Rightarrow> False | Some s \<Rightarrow> s \<noteq> [])"

text \<open>
  \<^verbatim>\<open>toUpperCase\<close> and \<^verbatim>\<open>toLowerCase\<close> on the ASCII letters, the only characters the
  program stores in a board; every other character is left as it is.
\<close>

definition upperChars :: string where
  "upperChars = ''ABCDEFGHIJKLMNOPQRSTUVWXYZ''"

definition lowerChars :: string where
  "lowerChars = ''abcdefghijklmnopqrstuvwxyz''"

definition toUpperCase :: "string \<Rightarrow> string" where
  "toUpperCase s = map (\<lambda>ch. case map_of (zip lowerChars upperChars) ch of None \<Rightarrow> ch | Some d \<Rightarrow> d) s"

definition toLowerCase :: "string \<Rightarrow> string" where
  "toLowerCase s = map (\<lambda>ch. case map_of (zip upperChars lowerChars) ch of None \<Rightarrow> ch | Some d \<Rightarrow> d) s"

text \<open>\<^verbatim>\<open>piece.toLowerCase()\<close> throws when \<^verbatim>\<open>piece\<close> is \<^verbatim>\<open>undefined\<close>.\<close>

definition lowered :: "jsval \<Rightarrow> string result" where
  "lowered piece = (case piece of None \<Rightarrow> Inl TypeError | Some s \<Rightarrow> Inr (toLowerCase s))"

text \<open>\<^verbatim>\<open>piece && piece === piece.toUpperCase()\<close>, read as a condition.\<close>

definition isWhite :: "jsval \<Rightarrow> bool" where
  "isWhite piece = (truthy piece \<and> piece = map_option toUpperCase piece)"

definition isBlack :: "jsval \<Rightarrow> bool" where
  "isBlack piece = (truthy piece \<and> piece = map_option toLowerCase piece)"

section \<open>isLegalMove\<close>

text \<open>
  The function is a sequence of \<^verbatim>\<open>if\<close> blocks, one per piece kind; a block either
  returns, throws, or falls through to the next block.
\<close>

datatype flow = Return bool | Throw error | Fall

type_synonym block = "(reads \<times> flow) option"

definition andThen :: "block \<Rightarrow> (reads \<Rightarrow> block) \<Rightarrow> block" where
  "andThen m k = (case m of None \<Rightarrow> None
                  | Some (tr, Fall) \<Rightarrow> k tr
                  | Some (tr, Return b) \<Rightarrow> Some (tr, Return b)
                  | Some (tr, Throw e) \<Rightarrow> Some (tr, Throw e))"

text \<open>
  The blocking-path loop of the rook (and of the queen's rook-like branch):
  \<^verbatim>\<open>while (r !== toRow || c !== toCol) { if (board[r][c]) return false; r += rowStep; c += colStep; } return true;\<close>
  The parameter \<open>tr\<close> collects the squares read.
\<close>

partial_function (option) lineLoop ::
  "board \<Rightarrow> int \<Rightarrow> int \<Rightarrow> int \<Rightarrow> int \<Rightarrow> int \<Rightarrow> int \<Rightarrow> reads \<Rightarrow> (reads \<times> flow) option" where
  "lineLoop board toRow toCol rowStep colStep r c tr =
     (if r \<noteq> toRow \<or> c \<noteq> toCol then
        (case cell board r c of
           Inl e \<Rightarrow> Some (tr @ [(r, c)], Throw e)
         | Inr v \<Rightarrow>
             if truthy v then Some (tr @ [(r, c)], Return False)
             else lineLoop board toRow toCol rowStep colStep (r + rowStep) (c + colStep) (tr @ [(r, c)]))
      else Some (tr, Return True))"

text \<open>
  The loop of the bishop (and of the queen's bishop-like branch); it differs in its
  condition: \<^verbatim>\<open>while (r !== toRow && c !== toCol)\<close>.
\<close>

partial_function (option) diagLoop ::
  "board \<Rightarrow> int \<Rightarrow> int \<Rightarrow> int \<Rightarrow> int \<Rightarrow> int \<Rightarrow> int \<Rightarrow> reads \<Rightarrow> (reads \<times> flow) option" where
  "diagLoop board toRow toCol rowStep colStep r c tr =
     (if r \<noteq> toRow \<and> c \<noteq> toCol then
        (case cell board r c of
           Inl e \<Rightarrow> Some (tr @ [(r, c)], Throw e)
         | Inr v \<Rightarrow>
             if truthy v then Some (tr @ [(r, c)], Return False)
             else diagLoop board toRow toCol rowStep colStep (r + rowStep) (c + colStep) (tr @ [(r, c)]))
      else Some (tr, Return True))"

declare lineLoop.simps [code]
declare diagLoop.simps [code]

text \<open>
  The two pawn blocks of the source differ only in their constants: the piece
  (\<^verbatim>\<open>'P'\<close> / \<^verbatim>\<open>'p'\<close>), the direction (\<^verbatim>\<open>fromRow - 1\<close> / \<^verbatim>\<open>fromRow + 1\<close>), the
  starting row (6 / 1), the row of the double step (4 / 3), the row between (5 / 2) and
  the test on the captured piece (\<^verbatim>\<open>isBlack\<close> / \<^verbatim>\<open>isWhite\<close>).
\<close>

definition pawnBlock ::
  "string \<Rightarrow> int \<Rightarrow> int \<Rightarrow> int \<Rightarrow> int \<Rightarrow> (jsval \<Rightarrow> bool) \<Rightarrow>
   int \<Rightarrow> int \<Rightarrow> int \<Rightarrow> int \<Rightarrow> jsval \<Rightarrow> jsval \<Rightarrow> board \<Rightarrow> bool \<Rightarrow> reads \<Rightarrow> block" where
  "pawnBlock pawn dir startRow doubleRow midRow enemy
             fromRow fromCol toRow toCol piece target board ignorePawnCapture tr =
     (if piece = Some pawn then
        andThen
          (if fromCol = toCol \<and> \<not> truthy target then
             (if toRow = fromRow + dir then Some (tr, Return True)
              else if fromRow = startRow \<and> toRow = doubleRow then
                (case cell board midRow fromCol of
                   Inl e \<Rightarrow> Some (tr @ [(midRow, fromCol)], Throw e)
                 | Inr v \<Rightarrow>
                     if \<not> truthy v then Some (tr @ [(midRow, fromCol)], Return True)
                     else Some (tr @ [(midRow, fromCol)], Fall))
              else Some (tr, Fall))
           else Some (tr, Fall))
          (\<lambda>tr1.
             if \<bar>toCol - fromCol\<bar> = 1 \<and> toRow = fromRow + dir \<and> truthy target \<and> enemy target
             then Some (tr1, Return True)
             else if ignorePawnCapture \<and> \<bar>toCol - fromCol\<bar> = 1 \<and> toRow = fromRow + dir
             then Some (tr1, Return True)
             else Some (tr1, Fall))
      else Some (tr, Fall))"

text \<open>The rook-like branch: aligned on a row or a column, then the blocking loop.\<close>

definition lineMove :: "int \<Rightarrow> int \<Rightarrow> int \<Rightarrow> int \<Rightarrow> board \<Rightarrow> reads \<Rightarrow> block" where
  "lineMove fromRow fromCol toRow toCol board tr =
     (if fromRow = toRow \<or> fromCol = toCol then
        (let rowStep = (if fromRow = toRow then 0 else if toRow > fromRow then 1 else - 1);
             colStep = (if fromCol = toCol then 0 else if toCol > fromCol then 1 else - 1)
         in lineLoop board toRow toCol rowStep colStep (fromRow + rowStep) (fromCol + colStep) tr)
      else Some (tr, Fall))"

text \<open>The bishop-like branch: equal absolute deltas, then the blocking loop.\<close>

definition diagMove :: "int \<Rightarrow> int \<Rightarrow> int \<Rightarrow> int \<Rightarrow> board \<Rightarrow> reads \<Rightarrow> block" where
  "diagMove fromRow fromCol toRow toCol board tr =
     (if \<bar>fromRow - toRow\<bar> = \<bar>fromCol - toCol\<bar> then
        (let rowStep = (if toRow > fromRow then 1 else - 1);
             colStep = (if toCol > fromCol then 1 else - 1)
         in diagLoop board toRow toCol rowStep colStep (fromRow + rowStep) (fromCol + colStep) tr)
      else Some (tr, Fall))"

text \<open>A block guarded by \<^verbatim>\<open>piece.toLowerCase() === letter\<close>.\<close>

definition kindBlock :: "jsval \<Rightarrow> string \<Rightarrow> reads \<Rightarrow> (reads \<Rightarrow> block) \<Rightarrow> block" where
  "kindBlock piece letter tr body =
     (case lowered piece of
        Inl e \<Rightarrow> Some (tr, Throw e)
      | Inr l \<Rightarrow> if l = letter then body tr else Some (tr, Fall))"

definition knightMove :: "int \<Rightarrow> int \<Rightarrow> int \<Rightarrow> int \<Rightarrow> reads \<Rightarrow> block" where
  "knightMove fromRow fromCol toRow toCol tr =
     (if (\<bar>fromRow - toRow\<bar> = 2 \<and> \<bar>fromCol - toCol\<bar> = 1) \<or>
         (\<bar>fromRow - toRow\<bar> = 1 \<and> \<bar>fromCol - toCol\<bar> = 2)
      then Some (tr, Return True) else Some (tr, Fall))"

definition kingMove :: "int \<Rightarrow> int \<Rightarrow> int \<Rightarrow> int \<Rightarrow> reads \<Rightarrow> block" where
  "kingMove fromRow fromCol toRow toCol tr =
     (if \<bar>fromRow - toRow\<bar> \<le> 1 \<and> \<bar>fromCol - toCol\<bar> \<le> 1
      then Some (tr, Return True) else Some (tr, Fall))"

text \<open>The end of the function: the last statement is \<^verbatim>\<open>return false\<close>.\<close>

definition finish :: "block \<Rightarrow> (reads \<times> bool result) option" where
  "finish m = (case m of None \<Rightarrow> None
               | Some (tr, Return b) \<Rightarrow> Some (tr, Inr b)
               | Some (tr, Throw e) \<Rightarrow> Some (tr, Inl e)
               | Some (tr, Fall) \<Rightarrow> Some (tr, Inr False))"

text \<open>
  \<^verbatim>\<open>isLegalMove(from, to, piece, board, ignorePawnCapture)\<close>. The result carries the
  squares of \<open>board\<close> that were read, the first being the destination
  (\<^verbatim>\<open>const target = board[toRow][toCol]\<close>).
\<close>

definition isLegalMove ::
  "square \<Rightarrow> square \<Rightarrow> jsval \<Rightarrow> board \<Rightarrow> bool \<Rightarrow> (reads \<times> bool result) option" where
  "isLegalMove from to piece board ignorePawnCapture =
     (let fromRow = row from; fromCol = col from; toRow = row to; toCol = col to in
      case cell board toRow toCol of
        Inl e \<Rightarrow> Some ([(toRow, toCol)], Inl e)
      | Inr target \<Rightarrow>
          finish
           (andThen (pawnBlock ''P'' (- 1) 6 4 5 isBlack
                       fromRow fromCol toRow toCol piece target board ignorePawnCapture [(toRow, toCol)])
           (\<lambda>tr. andThen (pawnBlock ''p'' 1 1 3 2 isWhite
                       fromRow fromCol toRow toCol piece target board ignorePawnCapture tr)
           (\<lambda>tr. andThen (kindBlock piece ''r'' tr (lineMove fromRow fromCol toRow toCol board))
           (\<lambda>tr. andThen (kindBlock piece ''b'' tr (diagMove fromRow fromCol toRow toCol board))
           (\<lambda>tr. andThen (kindBlock piece ''q'' tr
                      (\<lambda>tr. andThen (lineMove fromRow fromCol toRow toCol board tr)
                                    (diagMove fromRow fromCol toRow toCol board)))
           (\<lambda>tr. andThen (kindBlock piece ''n'' tr (knightMove fromRow fromCol toRow toCol))
           (\<lambda>tr. kindBlock piece ''k'' tr (kingMove fromRow fromCol toRow toCol)))))))))"

text \<open>The value a caller sees: the outcome without the list of reads.\<close>

definition outcome :: "(reads \<times> bool result) option \<Rightarrow> bool comp" where
  "outcome m = map_option snd m"


section \<open>Scanning the board\<close>

text \<open>
  Every scan of the source is a pair of nested loops
  \<^verbatim>\<open>for (let row = 0; row < 8; row++) for (let col = 0; col < 8; col++)\<close>: the squares
  are visited row by row, in the order of \<open>allSquares\<close>.
\<close>

definition indices :: "int list" where
  "indices = [0, 1, 2, 3, 4, 5, 6, 7]"

definition allSquares :: "(int \<times> int) list" where
  "allSquares = List.product indices indices"

text \<open>\<^verbatim>\<open>findKing\<close>: the first square holding the king's letter, or \<^verbatim>\<open>null\<close>.\<close>

fun findKingScan :: "board \<Rightarrow> string \<Rightarrow> (int \<times> int) list \<Rightarrow> square option comp" where
  "findKingScan board king [] = ret None"
| "findKingScan board king ((r, c) # rest) =
     (case cell board r c of
        Inl e \<Rightarrow> throw e
      | Inr v \<Rightarrow> if v = Some king then ret (Some \<lparr>row = r, col = c\<rparr>)
                else findKingScan board king rest)"

definition findKing :: "board \<Rightarrow> color \<Rightarrow> square option comp" where
  "findKing board color = findKingScan board (if color = White then ''K'' else ''k'') allSquares"

text \<open>\<^verbatim>\<open>(color === 'white' && isWhite(piece)) || (color === 'black' && isBlack(piece))\<close>\<close>

definition ownedBy :: "color \<Rightarrow> jsval \<Rightarrow> bool" where
  "ownedBy color piece = ((color = White \<and> isWhite piece) \<or> (color = Black \<and> isBlack piece))"

text \<open>\<^verbatim>\<open>isSquareAttacked(board, row, col, byColor)\<close>; the queried square is (\<open>qrow\<close>, \<open>qcol\<close>).\<close>

fun attackScan :: "board \<Rightarrow> int \<Rightarrow> int \<Rightarrow> color \<Rightarrow> (int \<times> int) list \<Rightarrow> bool comp" where
  "attackScan board qrow qcol byColor [] = ret False"
| "attackScan board qrow qcol byColor ((r, c) # rest) =
     (case cell board r c of
        Inl e \<Rightarrow> throw e
      | Inr piece \<Rightarrow>
          if \<not> truthy piece then attackScan board qrow qcol byColor rest
          else if ownedBy byColor piece then
            bindR (outcome (isLegalMove \<lparr>row = r, col = c\<rparr> \<lparr>row = qrow, col = qcol\<rparr> piece board True))
              (\<lambda>hit. if hit then ret True else attackScan board qrow qcol byColor rest)
          else attackScan board qrow qcol byColor rest)"

definition isSquareAttacked :: "board \<Rightarrow> int \<Rightarrow> int \<Rightarrow> color \<Rightarrow> bool comp" where
  "isSquareAttacked board qrow qcol byColor = attackScan board qrow qcol byColor allSquares"

definition opponentOf :: "color \<Rightarrow> color" where
  "opponentOf color = (if color = White then Black else White)"

definition isInCheck :: "board \<Rightarrow> color \<Rightarrow> bool comp" where
  "isInCheck board color =
     bindR (findKing board color)
       (\<lambda>kingPos. case kingPos of
           None \<Rightarrow> ret False
         | Some k \<Rightarrow> isSquareAttacked board (row k) (col k) (opponentOf color))"

section \<open>Trying a move on a copy of the board\<close>

text \<open>
  \<^verbatim>\<open>newBoard[r][c] = v\<close> on the copy \<^verbatim>\<open>board.map(row => row.slice())\<close>. A row index
  outside the board throws. \<open>NotModelled\<close> marks the two cases that a board of strings
  cannot hold: storing \<^verbatim>\<open>undefined\<close>, and a column index outside the row (JavaScript
  then extends the row).
\<close>

definition setCell :: "board \<Rightarrow> int \<Rightarrow> int \<Rightarrow> jsval \<Rightarrow> board result" where
  "setCell board r c v =
     (case index board r of
        None \<Rightarrow> Inl TypeError
      | Some rw \<Rightarrow>
          (case v of
             None \<Rightarrow> Inl NotModelled
           | Some s \<Rightarrow> if 0 \<le> c \<and> c < int (length rw)
                       then Inr (board[nat r := rw[nat c := s]])
                       else Inl NotModelled))"

text \<open>
  \<^verbatim>\<open>const newBoard = board.map(row => row.slice()); newBoard[toRow][toCol] = piece; newBoard[fromRow][fromCol] = '';\<close>
\<close>

definition moveOnCopy :: "board \<Rightarrow> int \<Rightarrow> int \<Rightarrow> int \<Rightarrow> int \<Rightarrow> jsval \<Rightarrow> board comp" where
  "moveOnCopy board fromRow fromCol toRow toCol piece =
     (case setCell board toRow toCol piece of
        Inl e \<Rightarrow> throw e
      | Inr b1 \<Rightarrow>
          (case setCell b1 fromRow fromCol (Some []) of
             Inl e \<Rightarrow> throw e
           | Inr b2 \<Rightarrow> ret b2))"

section \<open>Legal moves\<close>

text \<open>The two inner loops of \<^verbatim>\<open>hasAnyLegalMoves\<close>, over the destinations of one piece.\<close>

fun anyLegalTo :: "board \<Rightarrow> color \<Rightarrow> jsval \<Rightarrow> int \<Rightarrow> int \<Rightarrow> (int \<times> int) list \<Rightarrow> bool comp" where
  "anyLegalTo board color piece fromRow fromCol [] = ret False"
| "anyLegalTo board color piece fromRow fromCol ((toRow, toCol) # rest) =
     (if fromRow = toRow \<and> fromCol = toCol then anyLegalTo board color piece fromRow fromCol rest
      else
        (case cell board toRow toCol of
           Inl e \<Rightarrow> throw e
         | Inr target \<Rightarrow>
             if truthy target \<and> ownedBy color target
             then anyLegalTo board color piece fromRow fromCol rest
             else
               bindR (outcome (isLegalMove \<lparr>row = fromRow, col = fromCol\<rparr>
                                 \<lparr>row = toRow, col = toCol\<rparr> piece board False))
                 (\<lambda>legal.
                    if legal then
                      bindR (moveOnCopy board fromRow fromCol toRow toCol piece)
                        (\<lambda>newBoard.
                           bindR (isInCheck newBoard color)
                             (\<lambda>chk. if \<not> chk then ret True
                                    else anyLegalTo board color piece fromRow fromCol rest))
                    else anyLegalTo board color piece fromRow fromCol rest)))"

text \<open>The two outer loops of \<^verbatim>\<open>hasAnyLegalMoves\<close>, over the origins.\<close>

fun anyLegalFrom :: "board \<Rightarrow> color \<Rightarrow> (int \<times> int) list \<Rightarrow> bool comp" where
  "anyLegalFrom board color [] = ret False"
| "anyLegalFrom board color ((fromRow, fromCol) # rest) =
     (case cell board fromRow fromCol of
        Inl e \<Rightarrow> throw e
      | Inr piece \<Rightarrow>
          if \<not> truthy piece then anyLegalFrom board color rest
          else if ownedBy color piece then
            bindR (anyLegalTo board color piece fromRow fromCol allSquares)
              (\<lambda>found. if found then ret True else anyLegalFrom board color rest)
          else anyLegalFrom board color rest)"

definition hasAnyLegalMoves :: "board \<Rightarrow> color \<Rightarrow> bool comp" where
  "hasAnyLegalMoves board color = anyLegalFrom board color allSquares"

section \<open>The game: board, selection and side to move\<close>

text \<open>The three variables \<^verbatim>\<open>gameBoard\<close>, \<^verbatim>\<open>selected\<close> and \<^verbatim>\<open>currentPlayer\<close>.\<close>

record game =
  gameBoard :: board
  selected :: "square option"
  currentPlayer :: color

text \<open>
  The loop of \<^verbatim>\<open>getPossibleMoves(row, col)\<close> over the destinations; \<open>moves\<close> is the
  array being filled. The function reads \<^verbatim>\<open>gameBoard\<close> and \<^verbatim>\<open>currentPlayer\<close>.
\<close>

fun collectMoves ::
  "board \<Rightarrow> color \<Rightarrow> jsval \<Rightarrow> int \<Rightarrow> int \<Rightarrow> (int \<times> int) list \<Rightarrow> square list \<Rightarrow> square list comp" where
  "collectMoves board player piece fromRow fromCol [] moves = ret moves"
| "collectMoves board player piece fromRow fromCol ((toRow, toCol) # rest) moves =
     (if fromRow = toRow \<and> fromCol = toCol
      then collectMoves board player piece fromRow fromCol rest moves
      else
        (case cell board toRow toCol of
           Inl e \<Rightarrow> throw e
         | Inr target \<Rightarrow>
             if truthy target \<and> ownedBy player target
             then collectMoves board player piece fromRow fromCol rest moves
             else
               bindR (outcome (isLegalMove \<lparr>row = fromRow, col = fromCol\<rparr>
                                 \<lparr>row = toRow, col = toCol\<rparr> piece board False))
                 (\<lambda>legal.
                    if legal then
                      bindR (moveOnCopy board fromRow fromCol toRow toCol piece)
                        (\<lambda>newBoard.
                           bindR (isInCheck newBoard player)
                             (\<lambda>chk. if \<not> chk
                                    then collectMoves board player piece fromRow fromCol rest
                                           (moves @ [\<lparr>row = toRow, col = toCol\<rparr>])
                                    else collectMoves board player piece fromRow fromCol rest moves))
                    else collectMoves board player piece fromRow fromCol rest moves)))"

definition getPossibleMoves :: "game \<Rightarrow> int \<Rightarrow> int \<Rightarrow> square list comp" where
  "getPossibleMoves g fromRow fromCol =
     (case cell (gameBoard g) fromRow fromCol of
        Inl e \<Rightarrow> throw e
      | Inr piece \<Rightarrow>
          if \<not> truthy piece then ret []
          else collectMoves (gameBoard g) (currentPlayer g) piece fromRow fromCol allSquares [])"

text \<open>
  What \<^verbatim>\<open>handleSquareClick\<close> does besides changing the three variables:
  \<^verbatim>\<open>renderBoard()\<close>, the alert \<^verbatim>\<open>"You can't move into check!"\<close>, and the checkmate
  alert set up with \<^verbatim>\<open>setTimeout\<close>. The handler only sets the timer up; the callback
  runs later, and what it then shows is \<open>checkmateAlertText\<close> below.
\<close>

datatype event = Render | AlertMoveIntoCheck | ScheduleCheckmateAlert

text \<open>
  \<^verbatim>\<open>handleSquareClick(row, col)\<close>, on the clicked square (\<open>r\<close>, \<open>c\<close>). It returns the
  new values of the three variables and the events, in order.
\<close>

definition handleSquareClick :: "int \<Rightarrow> int \<Rightarrow> game \<Rightarrow> (game \<times> event list) comp" where
  "handleSquareClick r c g =
     (case cell (gameBoard g) r c of
        Inl e \<Rightarrow> throw e
      | Inr piece \<Rightarrow>
          (case selected g of
             Some sel \<Rightarrow>
               if row sel \<noteq> r \<or> col sel \<noteq> c then
                 (case cell (gameBoard g) (row sel) (col sel) of
                    Inl e \<Rightarrow> throw e
                  | Inr movingPiece \<Rightarrow>
                      bindR (if \<not> truthy piece
                                \<or> (currentPlayer g = White \<and> isBlack piece)
                                \<or> (currentPlayer g = Black \<and> isWhite piece)
                             then outcome (isLegalMove \<lparr>row = row sel, col = col sel\<rparr>
                                             \<lparr>row = r, col = c\<rparr> movingPiece (gameBoard g) False)
                             else ret False)
                        (\<lambda>ok.
                           if ok then
                             bindR (moveOnCopy (gameBoard g) (row sel) (col sel) r c movingPiece)
                               (\<lambda>newBoard.
                                  bindR (isInCheck newBoard (currentPlayer g))
                                    (\<lambda>chk.
                                       if \<not> chk then
                                         (let opponent = opponentOf (currentPlayer g) in
                                          bindR (isInCheck newBoard opponent)
                                            (\<lambda>oppInCheck.
                                               bindR (if oppInCheck
                                                      then bindR (hasAnyLegalMoves newBoard opponent)
                                                             (\<lambda>anyMove. ret (\<not> anyMove))
                                                      else ret False)
                                                 (\<lambda>mate.
                                                    ret (\<lparr>gameBoard = newBoard, selected = None,
                                                           currentPlayer = opponent\<rparr>,
                                                         (if mate then [Render, ScheduleCheckmateAlert]
                                                          else []) @ [Render]))))
                                       else ret (g\<lparr>selected := None\<rparr>,
                                                 [AlertMoveIntoCheck, Render])))
                           else ret (g\<lparr>selected := None\<rparr>, [Render])))
               else ret (g\<lparr>selected := None\<rparr>, [Render])
           | None \<Rightarrow>
               if truthy piece \<and> ownedBy (currentPlayer g) piece
               then ret (g\<lparr>selected := Some \<lparr>row = r, col = c\<rparr>\<rparr>, [Render])
               else ret (g, [])))"




text \<open>The board the program starts from.\<close>

definition initialBoard :: board where
  "initialBoard =
     [[''r'', ''n'', ''b'', ''q'', ''k'', ''b'', ''n'', ''r''],
      [''p'', ''p'', ''p'', ''p'', ''p'', ''p'', ''p'', ''p''],
      [[], [], [], [], [], [], [], []],
      [[], [], [], [], [], [], [], []],
      [[], [], [], [], [], [], [], []],
      [[], [], [], [], [], [], [], []],
      [''P'', ''P'', ''P'', ''P'', ''P'', ''P'', ''P'', ''P''],
      [''R'', ''N'', ''B'', ''Q'', ''K'', ''B'', ''N'', ''R'']]"

definition initialGame :: game where
  "initialGame = \<lparr>gameBoard = initialBoard, selected = None, currentPlayer = White\<rparr>"

section \<open>Notions used in the statements\<close>

text \<open>A row index and a column index inside the board: both in 0 .. 7.\<close>

definition onBoard :: "int \<Rightarrow> int \<Rightarrow> bool" where
  "onBoard r c = (0 \<le> r \<and> r < 8 \<and> 0 \<le> c \<and> c < 8)"

text \<open>A board of eight rows of eight squares, the shape \<^verbatim>\<open>gameBoard\<close> always has.\<close>

definition board8 :: "board \<Rightarrow> bool" where
  "board8 b = (length b = 8 \<and> list_all (\<lambda>rw. length rw = 8) b)"

text \<open>The strings the program stores in a square.\<close>

definition validCell :: "string \<Rightarrow> bool" where
  "validCell s = (s \<in> set [[], ''P'', ''N'', ''B'', ''R'', ''Q'', ''K'', ''p'', ''n'', ''b'', ''r'', ''q'', ''k''])"

text \<open>An eight by eight board holding only such strings.\<close>

definition wf_board :: "board \<Rightarrow> bool" where
  "wf_board b = (board8 b \<and> list_all (list_all validCell) b)"

text \<open>What \<^verbatim>\<open>board[r][c]\<close> yields when it does not throw.\<close>

definition pieceAt :: "board \<Rightarrow> int \<Rightarrow> int \<Rightarrow> jsval" where
  "pieceAt b r c = (case cell b r c of Inl e \<Rightarrow> None | Inr v \<Rightarrow> v)"

text \<open>The square is empty: \<^verbatim>\<open>!board[r][c]\<close>.\<close>

definition emptyAt :: "board \<Rightarrow> int \<Rightarrow> int \<Rightarrow> bool" where
  "emptyAt b r c = (\<not> truthy (pieceAt b r c))"

text \<open>
  The squares strictly between an origin and a destination: the origin moved by
  \<open>k\<close> unit steps towards the destination, for \<open>k\<close> from 1 to the distance minus one.
  The step is the sign of the row delta and the sign of the column delta; the distance
  is the larger absolute delta.
\<close>

definition between :: "int \<Rightarrow> int \<Rightarrow> int \<Rightarrow> int \<Rightarrow> (int \<times> int) list" where
  "between fromRow fromCol toRow toCol =
     map (\<lambda>k. (fromRow + int k * sgn (toRow - fromRow), fromCol + int k * sgn (toCol - fromCol)))
       [1 ..< nat (max \<bar>toRow - fromRow\<bar> \<bar>toCol - fromCol\<bar>)]"

text \<open>Every square strictly between is empty.\<close>

definition pathClear :: "board \<Rightarrow> int \<Rightarrow> int \<Rightarrow> int \<Rightarrow> int \<Rightarrow> bool" where
  "pathClear b fromRow fromCol toRow toCol =
     list_all (\<lambda>(x, y). emptyAt b x y) (between fromRow fromCol toRow toCol)"

text \<open>
  The rules of section 4.1 of the specification, per piece kind. The pawn rule takes the
  constants that distinguish the colours: direction, starting row, row of the double
  step, row between, and the test for a piece of the other colour.
\<close>

definition pawnRule ::
  "int \<Rightarrow> int \<Rightarrow> int \<Rightarrow> int \<Rightarrow> (jsval \<Rightarrow> bool) \<Rightarrow> board \<Rightarrow> int \<Rightarrow> int \<Rightarrow> int \<Rightarrow> int \<Rightarrow> bool \<Rightarrow> bool" where
  "pawnRule dir startRow doubleRow midRow enemy b fromRow fromCol toRow toCol attackMode =
     ((fromCol = toCol \<and> emptyAt b toRow toCol \<and>
         (toRow = fromRow + dir \<or> (fromRow = startRow \<and> toRow = doubleRow \<and> emptyAt b midRow fromCol)))
      \<or> (\<bar>toCol - fromCol\<bar> = 1 \<and> toRow = fromRow + dir \<and> (enemy (pieceAt b toRow toCol) \<or> attackMode)))"

definition rookRule :: "board \<Rightarrow> int \<Rightarrow> int \<Rightarrow> int \<Rightarrow> int \<Rightarrow> bool" where
  "rookRule b fromRow fromCol toRow toCol =
     ((fromRow = toRow \<or> fromCol = toCol) \<and> pathClear b fromRow fromCol toRow toCol)"

definition bishopRule :: "board \<Rightarrow> int \<Rightarrow> int \<Rightarrow> int \<Rightarrow> int \<Rightarrow> bool" where
  "bishopRule b fromRow fromCol toRow toCol =
     (\<bar>fromRow - toRow\<bar> = \<bar>fromCol - toCol\<bar> \<and> pathClear b fromRow fromCol toRow toCol)"

definition knightRule :: "int \<Rightarrow> int \<Rightarrow> int \<Rightarrow> int \<Rightarrow> bool" where
  "knightRule fromRow fromCol toRow toCol =
     ((\<bar>fromRow - toRow\<bar> = 2 \<and> \<bar>fromCol - toCol\<bar> = 1) \<or> (\<bar>fromRow - toRow\<bar> = 1 \<and> \<bar>fromCol - toCol\<bar> = 2))"

definition kingRule :: "int \<Rightarrow> int \<Rightarrow> int \<Rightarrow> int \<Rightarrow> bool" where
  "kingRule fromRow fromCol toRow toCol = (\<bar>fromRow - toRow\<bar> \<le> 1 \<and> \<bar>fromCol - toCol\<bar> \<le> 1)"

text \<open>
  The rule that applies to a piece string: the pawn letters are tested as they are, the
  other kinds in lower case, in the order of the blocks of \<^verbatim>\<open>isLegalMove\<close>.
\<close>

definition pseudoLegal :: "string \<Rightarrow> int \<Rightarrow> int \<Rightarrow> int \<Rightarrow> int \<Rightarrow> board \<Rightarrow> bool \<Rightarrow> bool" where
  "pseudoLegal p fromRow fromCol toRow toCol b attackMode =
     (if p = ''P'' then pawnRule (- 1) 6 4 5 isBlack b fromRow fromCol toRow toCol attackMode
      else if p = ''p'' then pawnRule 1 1 3 2 isWhite b fromRow fromCol toRow toCol attackMode
      else if toLowerCase p = ''r'' then rookRule b fromRow fromCol toRow toCol
      else if toLowerCase p = ''b'' then bishopRule b fromRow fromCol toRow toCol
      else if toLowerCase p = ''q'' then
        rookRule b fromRow fromCol toRow toCol \<or> bishopRule b fromRow fromCol toRow toCol
      else if toLowerCase p = ''n'' then knightRule fromRow fromCol toRow toCol
      else if toLowerCase p = ''k'' then kingRule fromRow fromCol toRow toCol
      else False)"

text \<open>
  A block, started with the reads \<open>tr\<close>, ends with the flow \<open>fl\<close> after reading
  only squares of the board.
\<close>

definition blockIs :: "block \<Rightarrow> reads \<Rightarrow> flow \<Rightarrow> bool" where
  "blockIs m tr fl = (\<exists>tr'. m = Some (tr @ tr', fl) \<and> (\<forall>(x, y)\<in>set tr'. onBoard x y))"

text \<open>The boolean \<^verbatim>\<open>isLegalMove\<close> returns for the flow its blocks end with.\<close>

definition flowValue :: "flow \<Rightarrow> bool" where
  "flowValue fl = (case fl of Return x \<Rightarrow> x | Throw e \<Rightarrow> False | Fall \<Rightarrow> False)"

text \<open>Two occupants of the same kind (equal in lower case) and of different colours.\<close>

definition sameKindOtherColour :: "jsval \<Rightarrow> jsval \<Rightarrow> bool" where
  "sameKindOtherColour v w =
     (truthy v \<and> truthy w \<and> map_option toLowerCase v = map_option toLowerCase w \<and> v \<noteq> w)"

text \<open>The letter \<^verbatim>\<open>findKing\<close> looks for: \<^verbatim>\<open>color === 'white' ? 'K' : 'k'\<close>.\<close>

definition kingLetter :: "color \<Rightarrow> string" where
  "kingLetter color = (if color = White then ''K'' else ''k'')"

text \<open>The board after \<^verbatim>\<open>newBoard[r][c] = s\<close>, for a square of the board.\<close>

definition putPiece :: "board \<Rightarrow> int \<Rightarrow> int \<Rightarrow> string \<Rightarrow> board" where
  "putPiece b r c s = b[nat r := (b ! nat r)[nat c := s]]"

text \<open>The board after the piece \<open>p\<close> has moved: destination written first, origin cleared second.\<close>

definition movedBoard :: "board \<Rightarrow> int \<Rightarrow> int \<Rightarrow> int \<Rightarrow> int \<Rightarrow> string \<Rightarrow> board" where
  "movedBoard b fromRow fromCol toRow toCol p = putPiece (putPiece b toRow toCol p) fromRow fromCol []"

text \<open>The simulated move returns a board on which \<open>color\<close> is not in check.\<close>

definition leavesKingSafe :: "board \<Rightarrow> color \<Rightarrow> jsval \<Rightarrow> int \<Rightarrow> int \<Rightarrow> int \<Rightarrow> int \<Rightarrow> bool" where
  "leavesKingSafe b color piece fromRow fromCol toRow toCol =
     (bindR (moveOnCopy b fromRow fromCol toRow toCol piece) (\<lambda>newBoard. isInCheck newBoard color)
        = ret False)"

text \<open>
  The test a destination passes in the loops of \<^verbatim>\<open>getPossibleMoves\<close> and
  \<^verbatim>\<open>hasAnyLegalMoves\<close>: not the origin, not a piece of the mover's colour, reachable
  for \<^verbatim>\<open>isLegalMove\<close>, and the simulated move leaves the mover out of check.
\<close>

definition enumerated :: "board \<Rightarrow> color \<Rightarrow> jsval \<Rightarrow> int \<Rightarrow> int \<Rightarrow> int \<Rightarrow> int \<Rightarrow> bool" where
  "enumerated b color piece fromRow fromCol toRow toCol =
     ((fromRow \<noteq> toRow \<or> fromCol \<noteq> toCol)
      \<and> \<not> ownedBy color (pieceAt b toRow toCol)
      \<and> outcome (isLegalMove \<lparr>row = fromRow, col = fromCol\<rparr> \<lparr>row = toRow, col = toCol\<rparr> piece b False)
          = ret True
      \<and> leavesKingSafe b color piece fromRow fromCol toRow toCol)"


text \<open>
  The selection, when there is one, is a square of the board holding a piece of the side
  to move: \<^verbatim>\<open>handleSquareClick\<close> selects no other square (lemma \<open>click_invariant\<close>).
\<close>

definition selectionOk :: "game \<Rightarrow> bool" where
  "selectionOk g =
     (case selected g of
        None \<Rightarrow> True
      | Some sel \<Rightarrow> onBoard (row sel) (col sel)
                    \<and> ownedBy (currentPlayer g) (pieceAt (gameBoard g) (row sel) (col sel)))"

text \<open>
  The conditions under which \<^verbatim>\<open>handleSquareClick\<close> carries out a move to the clicked
  square (\<open>r\<close>, \<open>c\<close>): a piece is selected, on another square; the clicked square is empty
  or holds a piece of the other colour; \<^verbatim>\<open>isLegalMove\<close> returns true; and the simulated
  move leaves the mover out of check.
\<close>

definition accepted :: "game \<Rightarrow> int \<Rightarrow> int \<Rightarrow> bool" where
  "accepted g r c =
     (case selected g of
        None \<Rightarrow> False
      | Some sel \<Rightarrow>
          (row sel \<noteq> r \<or> col sel \<noteq> c)
          \<and> (\<not> truthy (pieceAt (gameBoard g) r c)
               \<or> (currentPlayer g = White \<and> isBlack (pieceAt (gameBoard g) r c))
               \<or> (currentPlayer g = Black \<and> isWhite (pieceAt (gameBoard g) r c)))
          \<and> outcome (isLegalMove \<lparr>row = row sel, col = col sel\<rparr> \<lparr>row = r, col = c\<rparr>
                        (pieceAt (gameBoard g) (row sel) (col sel)) (gameBoard g) False) = ret True
          \<and> leavesKingSafe (gameBoard g) (currentPlayer g)
                (pieceAt (gameBoard g) (row sel) (col sel)) (row sel) (col sel) r c)"



section \<open>Positions used as examples\<close>

text \<open>A board with no piece on it.\<close>

definition emptyBoard :: board where
  "emptyBoard = replicate 8 (replicate 8 [])"

text \<open>
  The white pawn on (6, 4) has a black pawn two squares ahead; the black pawn on (1, 6)
  has a white pawn two squares ahead.
\<close>

definition blockedPawnBoard :: board where
  "blockedPawnBoard =
     [[''r'', ''n'', ''b'', ''q'', ''k'', ''b'', ''n'', ''r''],
      [''p'', ''p'', ''p'', ''p'', [], ''p'', ''p'', ''p''],
      [[], [], [], [], [], [], [], []],
      [[], [], [], [], [], [], ''P'', []],
      [[], [], [], [], ''p'', [], [], []],
      [[], [], [], [], [], [], [], []],
      [''P'', ''P'', ''P'', ''P'', ''P'', ''P'', [], ''P''],
      [''R'', ''N'', ''B'', ''Q'', ''K'', ''B'', ''N'', ''R'']]"

text \<open>
  Two boards that differ only on (5, 1): a white knight on the first, a black knight
  on the second.
\<close>

definition whiteKnightAhead :: board where
  "whiteKnightAhead =
     [[''r'', ''n'', ''b'', ''q'', ''k'', ''b'', ''n'', ''r''],
      [''p'', ''p'', ''p'', ''p'', ''p'', ''p'', ''p'', ''p''],
      [[], [], [], [], [], [], [], []],
      [[], [], [], [], [], [], [], []],
      [[], [], [], [], [], [], [], []],
      [[], ''N'', [], [], [], [], [], []],
      [''P'', ''P'', ''P'', ''P'', ''P'', ''P'', ''P'', ''P''],
      [''R'', [], ''B'', ''Q'', ''K'', ''B'', ''N'', ''R'']]"

definition blackKnightAhead :: board where
  "blackKnightAhead =
     [[''r'', ''n'', ''b'', ''q'', ''k'', ''b'', ''n'', ''r''],
      [''p'', ''p'', ''p'', ''p'', ''p'', ''p'', ''p'', ''p''],
      [[], [], [], [], [], [], [], []],
      [[], [], [], [], [], [], [], []],
      [[], [], [], [], [], [], [], []],
      [[], ''n'', [], [], [], [], [], []],
      [''P'', ''P'', ''P'', ''P'', ''P'', ''P'', ''P'', ''P''],
      [''R'', [], ''B'', ''Q'', ''K'', ''B'', ''N'', ''R'']]"



text \<open>A white pawn one step from the last row.\<close>

definition pawnOnSeventh :: board where
  "pawnOnSeventh =
     [[[], [], [], [], [], [], [], ''k''],
      [''P'', [], [], [], [], [], [], []],
      [[], [], [], [], [], [], [], []],
      [[], [], [], [], [], [], [], []],
      [[], [], [], [], [], [], [], []],
      [[], [], [], [], [], [], [], []],
      [[], [], [], [], [], [], [], []],
      [[], [], [], [], ''K'', [], [], []]]"

text \<open>
  A pinned rook: the white rook on (6, 4) shields its king on (7, 4) from the black rook
  on (0, 4).
\<close>

definition pinnedRook :: board where
  "pinnedRook =
     [[''k'', [], [], [], ''r'', [], [], []],
      [[], [], [], [], [], [], [], []],
      [[], [], [], [], [], [], [], []],
      [[], [], [], [], [], [], [], []],
      [[], [], [], [], [], [], [], []],
      [[], [], [], [], [], [], [], []],
      [[], [], [], [], ''R'', [], [], []],
      [[], [], [], [], ''K'', [], [], []]]"

section \<open>The blocking loops and the blocks of isLegalMove\<close>

lemma cell_onBoard:
  "board8 b \<Longrightarrow> onBoard r c \<Longrightarrow> cell b r c = Inr (Some (b ! nat r ! nat c))"
  by (auto simp: board8_def onBoard_def cell_def index_def list_all_iff)

lemma cell_pieceAt:
  "board8 b \<Longrightarrow> onBoard r c \<Longrightarrow> cell b r c = Inr (pieceAt b r c)"
  by (simp add: pieceAt_def cell_onBoard)

lemma lineLoop_walk:
  assumes b8: "board8 b"
  shows "\<lbrakk>\<forall>k<n. onBoard (r + int k * rs) (c + int k * cs); n = 0 \<or> rs \<noteq> 0 \<or> cs \<noteq> 0\<rbrakk> \<Longrightarrow>
     \<exists>tr'. lineLoop b (r + int n * rs) (c + int n * cs) rs cs r c tr
             = Some (tr @ tr', Return (\<forall>k<n. emptyAt b (r + int k * rs) (c + int k * cs)))
         \<and> (\<forall>(x, y)\<in>set tr'. onBoard x y)"
proof (induction n arbitrary: r c tr)
  case 0
  show ?case by (subst lineLoop.simps) simp
next
  case (Suc m)
  have here: "onBoard r c" using Suc.prems(1) by (auto dest: spec [of _ 0])
  have rest: "\<forall>k<m. onBoard ((r + rs) + int k * rs) ((c + cs) + int k * cs)"
  proof (intro allI impI)
    fix k assume "k < m"
    then have "onBoard (r + int (Suc k) * rs) (c + int (Suc k) * cs)"
      using Suc.prems(1) by (meson Suc_mono)
    then show "onBoard ((r + rs) + int k * rs) ((c + cs) + int k * cs)"
      by (simp add: algebra_simps)
  qed
  have tgt: "r + int (Suc m) * rs = (r + rs) + int m * rs" "c + int (Suc m) * cs = (c + cs) + int m * cs"
    by (simp_all add: algebra_simps)
  have away: "r \<noteq> (r + rs) + int m * rs \<or> c \<noteq> (c + cs) + int m * cs"
  proof -
    have "rs + int m * rs = (1 + int m) * rs" "cs + int m * cs = (1 + int m) * cs"
      by (simp_all add: algebra_simps)
    then show ?thesis using Suc.prems(2) by (auto simp: add.assoc)
  qed
  have all_split: "(\<forall>k<Suc m. emptyAt b (r + int k * rs) (c + int k * cs))
      = (emptyAt b r c \<and> (\<forall>k<m. emptyAt b ((r + rs) + int k * rs) ((c + cs) + int k * cs)))"
  proof -
    have "\<And>k. r + int (Suc k) * rs = (r + rs) + int k * rs" "\<And>k. c + int (Suc k) * cs = (c + cs) + int k * cs"
      by (simp_all add: algebra_simps)
    then show ?thesis
      by (simp only: All_less_Suc2) simp
  qed
  obtain tr' where
    ih: "lineLoop b ((r + rs) + int m * rs) ((c + cs) + int m * cs) rs cs (r + rs) (c + cs) (tr @ [(r, c)])
          = Some ((tr @ [(r, c)]) @ tr', Return (\<forall>k<m. emptyAt b ((r + rs) + int k * rs) ((c + cs) + int k * cs)))"
    and tr': "\<forall>(x, y)\<in>set tr'. onBoard x y"
    using Suc.IH [OF rest, of "tr @ [(r, c)]"] Suc.prems(2) by blast
  show ?case
  proof (cases "emptyAt b r c")
    case True
    have "lineLoop b ((r + rs) + int m * rs) ((c + cs) + int m * cs) rs cs r c tr
          = Some (tr @ ((r, c) # tr'), Return (\<forall>k<m. emptyAt b ((r + rs) + int k * rs) ((c + cs) + int k * cs)))"
      using away True ih
      by (subst lineLoop.simps) (simp add: cell_pieceAt [OF b8 here] emptyAt_def)
    then show ?thesis
      unfolding tgt all_split using True tr' here by (intro exI [of _ "(r, c) # tr'"]) simp
  next
    case False
    have "lineLoop b ((r + rs) + int m * rs) ((c + cs) + int m * cs) rs cs r c tr
          = Some (tr @ [(r, c)], Return False)"
      using away False
      by (subst lineLoop.simps) (simp add: cell_pieceAt [OF b8 here] emptyAt_def)
    then show ?thesis
      unfolding tgt all_split using False here by (intro exI [of _ "[(r, c)]"]) simp
  qed
qed

lemma diagLoop_walk:
  assumes b8: "board8 b"
  shows "\<lbrakk>\<forall>k<n. onBoard (r + int k * rs) (c + int k * cs); rs \<noteq> 0 \<and> cs \<noteq> 0\<rbrakk> \<Longrightarrow>
     \<exists>tr'. diagLoop b (r + int n * rs) (c + int n * cs) rs cs r c tr
             = Some (tr @ tr', Return (\<forall>k<n. emptyAt b (r + int k * rs) (c + int k * cs)))
         \<and> (\<forall>(x, y)\<in>set tr'. onBoard x y)"
proof (induction n arbitrary: r c tr)
  case 0
  show ?case by (subst diagLoop.simps) simp
next
  case (Suc m)
  have here: "onBoard r c" using Suc.prems(1) by (auto dest: spec [of _ 0])
  have rest: "\<forall>k<m. onBoard ((r + rs) + int k * rs) ((c + cs) + int k * cs)"
  proof (intro allI impI)
    fix k assume "k < m"
    then have "onBoard (r + int (Suc k) * rs) (c + int (Suc k) * cs)"
      using Suc.prems(1) by (meson Suc_mono)
    then show "onBoard ((r + rs) + int k * rs) ((c + cs) + int k * cs)"
      by (simp add: algebra_simps)
  qed
  have tgt: "r + int (Suc m) * rs = (r + rs) + int m * rs" "c + int (Suc m) * cs = (c + cs) + int m * cs"
    by (simp_all add: algebra_simps)
  have away: "r \<noteq> (r + rs) + int m * rs \<and> c \<noteq> (c + cs) + int m * cs"
  proof -
    have "rs + int m * rs = (1 + int m) * rs" "cs + int m * cs = (1 + int m) * cs"
      by (simp_all add: algebra_simps)
    then show ?thesis using Suc.prems(2) by (auto simp: add.assoc)
  qed
  have all_split: "(\<forall>k<Suc m. emptyAt b (r + int k * rs) (c + int k * cs))
      = (emptyAt b r c \<and> (\<forall>k<m. emptyAt b ((r + rs) + int k * rs) ((c + cs) + int k * cs)))"
  proof -
    have "\<And>k. r + int (Suc k) * rs = (r + rs) + int k * rs" "\<And>k. c + int (Suc k) * cs = (c + cs) + int k * cs"
      by (simp_all add: algebra_simps)
    then show ?thesis
      by (simp only: All_less_Suc2) simp
  qed
  obtain tr' where
    ih: "diagLoop b ((r + rs) + int m * rs) ((c + cs) + int m * cs) rs cs (r + rs) (c + cs) (tr @ [(r, c)])
          = Some ((tr @ [(r, c)]) @ tr', Return (\<forall>k<m. emptyAt b ((r + rs) + int k * rs) ((c + cs) + int k * cs)))"
    and tr': "\<forall>(x, y)\<in>set tr'. onBoard x y"
    using Suc.IH [OF rest, of "tr @ [(r, c)]"] Suc.prems(2) by blast
  show ?case
  proof (cases "emptyAt b r c")
    case True
    have "diagLoop b ((r + rs) + int m * rs) ((c + cs) + int m * cs) rs cs r c tr
          = Some (tr @ ((r, c) # tr'), Return (\<forall>k<m. emptyAt b ((r + rs) + int k * rs) ((c + cs) + int k * cs)))"
      using away True ih
      by (subst diagLoop.simps) (simp add: cell_pieceAt [OF b8 here] emptyAt_def)
    then show ?thesis
      unfolding tgt all_split using True tr' here by (intro exI [of _ "(r, c) # tr'"]) simp
  next
    case False
    have "diagLoop b ((r + rs) + int m * rs) ((c + cs) + int m * cs) rs cs r c tr
          = Some (tr @ [(r, c)], Return False)"
      using away False
      by (subst diagLoop.simps) (simp add: cell_pieceAt [OF b8 here] emptyAt_def)
    then show ?thesis
      unfolding tgt all_split using False here by (intro exI [of _ "[(r, c)]"]) simp
  qed
qed

lemma walk_pathClear:
  assumes "rs = sgn (tR - fr)" "cs = sgn (tC - fc)" "d = nat (max \<bar>tR - fr\<bar> \<bar>tC - fc\<bar>)"
  shows "(\<forall>k<d - 1. emptyAt b ((fr + rs) + int k * rs) ((fc + cs) + int k * cs)) = pathClear b fr fc tR tC"
proof -
  have shift: "\<And>k. (fr + rs) + int k * rs = fr + int (Suc k) * rs" "\<And>k. (fc + cs) + int k * cs = fc + int (Suc k) * cs"
    by (simp_all add: algebra_simps)
  have "(\<forall>k<d - 1. emptyAt b (fr + int (Suc k) * rs) (fc + int (Suc k) * cs))
        = (\<forall>j\<in>{1..<d}. emptyAt b (fr + int j * rs) (fc + int j * cs))"
  proof (intro iffI allI impI ballI)
    fix j assume a: "\<forall>k<d - 1. emptyAt b (fr + int (Suc k) * rs) (fc + int (Suc k) * cs)" and j: "j \<in> {1..<d}"
    then have "j - 1 < d - 1" "Suc (j - 1) = j" by auto
    then show "emptyAt b (fr + int j * rs) (fc + int j * cs)" using a by metis
  next
    fix k assume a: "\<forall>j\<in>{1..<d}. emptyAt b (fr + int j * rs) (fc + int j * cs)" and k: "k < d - 1"
    then have "Suc k \<in> {1..<d}" by auto
    then show "emptyAt b (fr + int (Suc k) * rs) (fc + int (Suc k) * cs)" using a by blast
  qed
  then show ?thesis
    unfolding shift by (simp add: pathClear_def between_def list_all_iff assms)
qed

lemma walk_onBoard:
  assumes f: "onBoard fr fc" and t: "onBoard tR tC"
    and rs: "rs = sgn (tR - fr)" and cs: "cs = sgn (tC - fc)" and d: "d = nat (max \<bar>tR - fr\<bar> \<bar>tC - fc\<bar>)"
    and al: "fr = tR \<or> fc = tC \<or> \<bar>tR - fr\<bar> = \<bar>tC - fc\<bar>"
    and k: "k < d - 1"
  shows "onBoard ((fr + rs) + int k * rs) ((fc + cs) + int k * cs)"
proof -
  have r: "0 \<le> (fr + rs) + int k * rs \<and> (fr + rs) + int k * rs < 8"
  proof (cases "tR - fr" "0::int" rule: linorder_cases)
    case equal then show ?thesis using f rs by (simp add: onBoard_def)
  next
    case greater then show ?thesis using f t rs d k al by (auto simp: onBoard_def)
  next
    case less then show ?thesis using f t rs d k al by (auto simp: onBoard_def)
  qed
  have c: "0 \<le> (fc + cs) + int k * cs \<and> (fc + cs) + int k * cs < 8"
  proof (cases "tC - fc" "0::int" rule: linorder_cases)
    case equal then show ?thesis using f cs by (simp add: onBoard_def)
  next
    case greater then show ?thesis using f t cs d k al by (auto simp: onBoard_def)
  next
    case less then show ?thesis using f t cs d k al by (auto simp: onBoard_def)
  qed
  show ?thesis using r c by (simp add: onBoard_def)
qed

lemma walk_target:
  assumes rs: "rs = sgn (tR - fr)" and cs: "cs = sgn (tC - fc)" and d: "d = nat (max \<bar>tR - fr\<bar> \<bar>tC - fc\<bar>)"
    and al: "fr = tR \<or> fc = tC \<or> \<bar>tR - fr\<bar> = \<bar>tC - fc\<bar>"
  shows "tR = (fr + rs) + int (d - 1) * rs" "tC = (fc + cs) + int (d - 1) * cs"
proof -
  show "tR = (fr + rs) + int (d - 1) * rs"
  proof (cases "tR - fr" "0::int" rule: linorder_cases)
    case equal then show ?thesis using rs by simp
  next
    case greater then show ?thesis using rs d al by (auto simp: max_def split: if_splits)
  next
    case less then show ?thesis using rs d al by (auto simp: max_def split: if_splits)
  qed
  show "tC = (fc + cs) + int (d - 1) * cs"
  proof (cases "tC - fc" "0::int" rule: linorder_cases)
    case equal then show ?thesis using cs by simp
  next
    case greater then show ?thesis using cs d al by (auto simp: max_def split: if_splits)
  next
    case less then show ?thesis using cs d al by (auto simp: max_def split: if_splits)
  qed
qed

lemma blockIs_here: "blockIs (Some (tr, fl)) tr fl"
  by (simp add: blockIs_def)

lemma blockIs_read: "onBoard x y \<Longrightarrow> blockIs (Some (tr @ [(x, y)], fl)) tr fl"
  by (simp add: blockIs_def)

lemma blockIs_andThen:
  assumes "blockIs m tr fl1" and "fl1 = Fall \<Longrightarrow> (\<And>tr1. blockIs (k tr1) tr1 fl2)"
  shows "blockIs (andThen m k) tr (if fl1 = Fall then fl2 else fl1)"
proof -
  obtain tr' where m: "m = Some (tr @ tr', fl1)" and tr': "\<forall>(x, y)\<in>set tr'. onBoard x y"
    using assms(1) by (auto simp: blockIs_def)
  show ?thesis
  proof (cases "fl1 = Fall")
    case True
    then obtain tr2 where "k (tr @ tr') = Some ((tr @ tr') @ tr2, fl2)" and "\<forall>(x, y)\<in>set tr2. onBoard x y"
      using assms(2) [of "tr @ tr'"] by (auto simp: blockIs_def)
    then show ?thesis using m tr' True
      by (auto simp: blockIs_def andThen_def intro!: exI [of _ "tr' @ tr2"])
  next
    case False
    then show ?thesis using m tr'
      by (cases fl1) (auto simp: blockIs_def andThen_def)
  qed
qed

lemma lineMove_blockIs:
  assumes b8: "board8 b" and f: "onBoard fr fc" and t: "onBoard tR tC"
  shows "blockIs (lineMove fr fc tR tC b tr) tr
           (if fr = tR \<or> fc = tC then Return (pathClear b fr fc tR tC) else Fall)"
proof (cases "fr = tR \<or> fc = tC")
  case False
  then show ?thesis by (simp add: lineMove_def blockIs_here)
next
  case True
  define rs where "rs = sgn (tR - fr)"
  define cs where "cs = sgn (tC - fc)"
  define d where "d = nat (max \<bar>tR - fr\<bar> \<bar>tC - fc\<bar>)"
  have al: "fr = tR \<or> fc = tC \<or> \<bar>tR - fr\<bar> = \<bar>tC - fc\<bar>" using True by blast
  have steps: "(if fr = tR then 0 else if tR > fr then 1 else - 1) = rs"
              "(if fc = tC then 0 else if tC > fc then 1 else - 1) = cs"
    by (auto simp: rs_def cs_def)
  have on: "\<forall>k<d - 1. onBoard ((fr + rs) + int k * rs) ((fc + cs) + int k * cs)"
    using walk_onBoard [OF f t rs_def cs_def d_def al] by blast
  have nz: "d - 1 = 0 \<or> rs \<noteq> 0 \<or> cs \<noteq> 0"
    by (auto simp: rs_def cs_def d_def sgn_if)
  from lineLoop_walk [OF b8 on nz, of tr]
  have "blockIs (lineLoop b tR tC rs cs (fr + rs) (fc + cs) tr) tr (Return (pathClear b fr fc tR tC))"
    unfolding walk_pathClear [OF rs_def cs_def d_def]
      walk_target(1) [OF rs_def cs_def d_def al, symmetric]
      walk_target(2) [OF rs_def cs_def d_def al, symmetric]
    by (simp add: blockIs_def)
  then show ?thesis using True by (simp add: lineMove_def steps Let_def)
qed

lemma diagMove_blockIs:
  assumes b8: "board8 b" and f: "onBoard fr fc" and t: "onBoard tR tC"
    and ne: "fr \<noteq> tR \<or> fc \<noteq> tC"
  shows "blockIs (diagMove fr fc tR tC b tr) tr
           (if \<bar>fr - tR\<bar> = \<bar>fc - tC\<bar> then Return (pathClear b fr fc tR tC) else Fall)"
proof (cases "\<bar>fr - tR\<bar> = \<bar>fc - tC\<bar>")
  case False
  then show ?thesis by (simp add: diagMove_def blockIs_here)
next
  case True
  define rs where "rs = sgn (tR - fr)"
  define cs where "cs = sgn (tC - fc)"
  define d where "d = nat (max \<bar>tR - fr\<bar> \<bar>tC - fc\<bar>)"
  have al: "fr = tR \<or> fc = tC \<or> \<bar>tR - fr\<bar> = \<bar>tC - fc\<bar>" using True by linarith
  have steps: "(if tR > fr then 1 else - 1) = rs" "(if tC > fc then 1 else - 1) = cs"
    using True ne by (auto simp: rs_def cs_def)
  have on: "\<forall>k<d - 1. onBoard ((fr + rs) + int k * rs) ((fc + cs) + int k * cs)"
    using walk_onBoard [OF f t rs_def cs_def d_def al] by blast
  have nz: "rs \<noteq> 0 \<and> cs \<noteq> 0"
    using True ne by (auto simp: rs_def cs_def sgn_if)
  from diagLoop_walk [OF b8 on nz, of tr]
  have "blockIs (diagLoop b tR tC rs cs (fr + rs) (fc + cs) tr) tr (Return (pathClear b fr fc tR tC))"
    unfolding walk_pathClear [OF rs_def cs_def d_def]
      walk_target(1) [OF rs_def cs_def d_def al, symmetric]
      walk_target(2) [OF rs_def cs_def d_def al, symmetric]
    by (simp add: blockIs_def)
  then show ?thesis using True by (simp add: diagMove_def steps Let_def)
qed

lemma pawnBlock_blockIs:
  assumes b8: "board8 b" and f: "onBoard fr fc" and t: "onBoard tR tC" and mid: "0 \<le> midRow \<and> midRow < 8"
  shows "blockIs (pawnBlock pawn dir startRow doubleRow midRow enemy fr fc tR tC (Some p)
                    (pieceAt b tR tC) b flag tr) tr
           (if p = pawn \<and> pawnRule dir startRow doubleRow midRow
                            (\<lambda>v. truthy v \<and> enemy v) b fr fc tR tC flag
            then Return True else Fall)"
proof -
  have m: "onBoard midRow fc" using mid f by (simp add: onBoard_def)
  show ?thesis
    unfolding pawnBlock_def pawnRule_def emptyAt_def cell_pieceAt [OF b8 m]
    using m by (auto simp: andThen_def blockIs_here blockIs_read)
qed

lemma kindBlock_blockIs:
  assumes "toLowerCase p = letter \<Longrightarrow> blockIs (body tr) tr fl"
  shows "blockIs (kindBlock (Some p) letter tr body) tr (if toLowerCase p = letter then fl else Fall)"
  using assms by (simp add: kindBlock_def lowered_def blockIs_here)

lemma knightMove_blockIs:
  "blockIs (knightMove fr fc tR tC tr) tr (if knightRule fr fc tR tC then Return True else Fall)"
  by (simp add: knightMove_def knightRule_def blockIs_here)

lemma kingMove_blockIs:
  "blockIs (kingMove fr fc tR tC tr) tr (if kingRule fr fc tR tC then Return True else Fall)"
  by (simp add: kingMove_def kingRule_def blockIs_here)

lemma finish_blockIs:
  assumes "blockIs m tr fl" and "\<And>e. fl \<noteq> Throw e"
  shows "\<exists>tr'. finish m = Some (tr @ tr', Inr (flowValue fl)) \<and> (\<forall>(x, y)\<in>set tr'. onBoard x y)"
  using assms by (cases fl) (auto simp: blockIs_def finish_def flowValue_def)

lemma truthy_enemy [simp]:
  "(\<lambda>v. truthy v \<and> isBlack v) = isBlack" "(\<lambda>v. truthy v \<and> isWhite v) = isWhite"
  by (auto simp: isBlack_def isWhite_def)

lemma lower_P [simp]: "toLowerCase ''P'' = ''p''" "toLowerCase ''p'' = ''p''"
  by (simp_all add: toLowerCase_def upperChars_def lowerChars_def)

lemma isLegalMove_refines:
  assumes b8: "board8 b" and f: "onBoard (row f) (col f)" and t: "onBoard (row t) (col t)"
    and ne: "row f \<noteq> row t \<or> col f \<noteq> col t \<or> toLowerCase p \<noteq> ''b''"
  shows "\<exists>tr. isLegalMove f t (Some p) b flag
               = Some (tr, Inr (pseudoLegal p (row f) (col f) (row t) (col t) b flag))
             \<and> (\<forall>(x, y)\<in>set tr. onBoard x y)"
proof -
  define fr fc tR tC where "fr = row f" and "fc = col f" and "tR = row t" and "tC = col t"
  note names = fr_def fc_def tR_def tC_def
  have f': "onBoard fr fc" and t': "onBoard tR tC" using f t by (simp_all add: names)
  define Fline where "Fline = (if fr = tR \<or> fc = tC then Return (pathClear b fr fc tR tC) else Fall)"
  define Fdiag where "Fdiag = (if \<bar>fr - tR\<bar> = \<bar>fc - tC\<bar> then Return (pathClear b fr fc tR tC) else Fall)"
  define Fk where "Fk = (if toLowerCase p = ''k'' then (if kingRule fr fc tR tC then Return True else Fall) else Fall)"
  define Fn where "Fn = (if toLowerCase p = ''n'' then (if knightRule fr fc tR tC then Return True else Fall) else Fall)"
  define Fq where "Fq = (if toLowerCase p = ''q'' then (if Fline = Fall then Fdiag else Fline) else Fall)"
  define Fb where "Fb = (if toLowerCase p = ''b'' then Fdiag else Fall)"
  define Fr where "Fr = (if toLowerCase p = ''r'' then Fline else Fall)"
  define Fpb where "Fpb = (if p = ''p'' \<and> pawnRule 1 1 3 2 isWhite b fr fc tR tC flag then Return True else Fall)"
  define Fpw where "Fpw = (if p = ''P'' \<and> pawnRule (- 1) 6 4 5 isBlack b fr fc tR tC flag then Return True else Fall)"
  have line: "blockIs (lineMove fr fc tR tC b tr) tr Fline" for tr
    unfolding Fline_def by (rule lineMove_blockIs [OF b8 f' t'])
  have diag: "blockIs (diagMove fr fc tR tC b tr) tr Fdiag" if "fr \<noteq> tR \<or> fc \<noteq> tC" for tr
    unfolding Fdiag_def by (rule diagMove_blockIs [OF b8 f' t' that])
  have k: "blockIs (kindBlock (Some p) ''k'' tr (kingMove fr fc tR tC)) tr Fk" for tr
    unfolding Fk_def by (rule kindBlock_blockIs) (rule kingMove_blockIs)
  have n: "blockIs (kindBlock (Some p) ''n'' tr (knightMove fr fc tR tC)) tr Fn" for tr
    unfolding Fn_def by (rule kindBlock_blockIs) (rule knightMove_blockIs)
  have q: "blockIs (kindBlock (Some p) ''q'' tr
              (\<lambda>tr. andThen (lineMove fr fc tR tC b tr) (diagMove fr fc tR tC b))) tr Fq" for tr
    unfolding Fq_def
  proof (rule kindBlock_blockIs)
    show "blockIs (andThen (lineMove fr fc tR tC b tr) (diagMove fr fc tR tC b)) tr
            (if Fline = Fall then Fdiag else Fline)"
    proof (rule blockIs_andThen [OF line])
      fix tr1 assume "Fline = Fall"
      then have "fr \<noteq> tR \<or> fc \<noteq> tC" by (auto simp: Fline_def split: if_splits)
      then show "blockIs (diagMove fr fc tR tC b tr1) tr1 Fdiag" by (rule diag)
    qed
  qed
  have bb: "blockIs (kindBlock (Some p) ''b'' tr (diagMove fr fc tR tC b)) tr Fb" for tr
    unfolding Fb_def
  proof (rule kindBlock_blockIs)
    assume "toLowerCase p = ''b''"
    then have "fr \<noteq> tR \<or> fc \<noteq> tC" using ne by (auto simp: names)
    then show "blockIs (diagMove fr fc tR tC b tr) tr Fdiag" by (rule diag)
  qed
  have r: "blockIs (kindBlock (Some p) ''r'' tr (lineMove fr fc tR tC b)) tr Fr" for tr
    unfolding Fr_def by (rule kindBlock_blockIs) (rule line)
  have pb: "blockIs (pawnBlock ''p'' 1 1 3 2 isWhite fr fc tR tC (Some p) (pieceAt b tR tC) b flag tr) tr Fpb" for tr
    using pawnBlock_blockIs [OF b8 f' t', of 2 "''p''" 1 1 3 isWhite p flag tr] by (simp add: Fpb_def)
  have pw: "blockIs (pawnBlock ''P'' (- 1) 6 4 5 isBlack fr fc tR tC (Some p) (pieceAt b tR tC) b flag tr) tr Fpw" for tr
    using pawnBlock_blockIs [OF b8 f' t', of 5 "''P''" "- 1" 6 4 isBlack p flag tr] by (simp add: Fpw_def)
  define F6 where "F6 = (if Fn = Fall then Fk else Fn)"
  define F5 where "F5 = (if Fq = Fall then F6 else Fq)"
  define F4 where "F4 = (if Fb = Fall then F5 else Fb)"
  define F3 where "F3 = (if Fr = Fall then F4 else Fr)"
  define F2 where "F2 = (if Fpb = Fall then F3 else Fpb)"
  define F1 where "F1 = (if Fpw = Fall then F2 else Fpw)"
  have c6: "blockIs (andThen (kindBlock (Some p) ''n'' tr (knightMove fr fc tR tC))
             (\<lambda>tr. kindBlock (Some p) ''k'' tr (kingMove fr fc tR tC))) tr F6" for tr
    unfolding F6_def by (rule blockIs_andThen [OF n]) (rule k)
  have c5: "blockIs (andThen (kindBlock (Some p) ''q'' tr
              (\<lambda>tr. andThen (lineMove fr fc tR tC b tr) (diagMove fr fc tR tC b)))
             (\<lambda>tr. andThen (kindBlock (Some p) ''n'' tr (knightMove fr fc tR tC))
             (\<lambda>tr. kindBlock (Some p) ''k'' tr (kingMove fr fc tR tC)))) tr F5" for tr
    unfolding F5_def by (rule blockIs_andThen [OF q]) (rule c6)
  have c4: "blockIs (andThen (kindBlock (Some p) ''b'' tr (diagMove fr fc tR tC b))
             (\<lambda>tr. andThen (kindBlock (Some p) ''q'' tr
              (\<lambda>tr. andThen (lineMove fr fc tR tC b tr) (diagMove fr fc tR tC b)))
             (\<lambda>tr. andThen (kindBlock (Some p) ''n'' tr (knightMove fr fc tR tC))
             (\<lambda>tr. kindBlock (Some p) ''k'' tr (kingMove fr fc tR tC))))) tr F4" for tr
    unfolding F4_def by (rule blockIs_andThen [OF bb]) (rule c5)
  have c3: "blockIs (andThen (kindBlock (Some p) ''r'' tr (lineMove fr fc tR tC b))
             (\<lambda>tr. andThen (kindBlock (Some p) ''b'' tr (diagMove fr fc tR tC b))
             (\<lambda>tr. andThen (kindBlock (Some p) ''q'' tr
              (\<lambda>tr. andThen (lineMove fr fc tR tC b tr) (diagMove fr fc tR tC b)))
             (\<lambda>tr. andThen (kindBlock (Some p) ''n'' tr (knightMove fr fc tR tC))
             (\<lambda>tr. kindBlock (Some p) ''k'' tr (kingMove fr fc tR tC)))))) tr F3" for tr
    unfolding F3_def by (rule blockIs_andThen [OF r]) (rule c4)
  have c2: "blockIs (andThen (pawnBlock ''p'' 1 1 3 2 isWhite fr fc tR tC (Some p) (pieceAt b tR tC) b flag tr)
             (\<lambda>tr. andThen (kindBlock (Some p) ''r'' tr (lineMove fr fc tR tC b))
             (\<lambda>tr. andThen (kindBlock (Some p) ''b'' tr (diagMove fr fc tR tC b))
             (\<lambda>tr. andThen (kindBlock (Some p) ''q'' tr
              (\<lambda>tr. andThen (lineMove fr fc tR tC b tr) (diagMove fr fc tR tC b)))
             (\<lambda>tr. andThen (kindBlock (Some p) ''n'' tr (knightMove fr fc tR tC))
             (\<lambda>tr. kindBlock (Some p) ''k'' tr (kingMove fr fc tR tC))))))) tr F2" for tr
    unfolding F2_def by (rule blockIs_andThen [OF pb]) (rule c3)
  have c1: "blockIs (andThen (pawnBlock ''P'' (- 1) 6 4 5 isBlack fr fc tR tC (Some p) (pieceAt b tR tC) b flag tr)
             (\<lambda>tr. andThen (pawnBlock ''p'' 1 1 3 2 isWhite fr fc tR tC (Some p) (pieceAt b tR tC) b flag tr)
             (\<lambda>tr. andThen (kindBlock (Some p) ''r'' tr (lineMove fr fc tR tC b))
             (\<lambda>tr. andThen (kindBlock (Some p) ''b'' tr (diagMove fr fc tR tC b))
             (\<lambda>tr. andThen (kindBlock (Some p) ''q'' tr
              (\<lambda>tr. andThen (lineMove fr fc tR tC b tr) (diagMove fr fc tR tC b)))
             (\<lambda>tr. andThen (kindBlock (Some p) ''n'' tr (knightMove fr fc tR tC))
             (\<lambda>tr. kindBlock (Some p) ''k'' tr (kingMove fr fc tR tC)))))))) tr F1" for tr
    unfolding F1_def by (rule blockIs_andThen [OF pw]) (rule c2)
  have nothrow: "F1 \<noteq> Throw e" for e
    by (simp add: F1_def F2_def F3_def F4_def F5_def F6_def Fpw_def Fpb_def Fr_def Fb_def Fq_def Fn_def Fk_def
          Fline_def Fdiag_def)
  have val: "flowValue F1 = pseudoLegal p fr fc tR tC b flag"
    by (auto simp: F1_def F2_def F3_def F4_def F5_def F6_def Fpw_def Fpb_def Fr_def Fb_def Fq_def Fn_def Fk_def
          Fline_def Fdiag_def flowValue_def pseudoLegal_def rookRule_def bishopRule_def)
  from finish_blockIs [OF c1 nothrow, of "[(tR, tC)]"]
  obtain tr' where "finish (andThen (pawnBlock ''P'' (- 1) 6 4 5 isBlack fr fc tR tC (Some p) (pieceAt b tR tC) b flag [(tR, tC)])
             (\<lambda>tr. andThen (pawnBlock ''p'' 1 1 3 2 isWhite fr fc tR tC (Some p) (pieceAt b tR tC) b flag tr)
             (\<lambda>tr. andThen (kindBlock (Some p) ''r'' tr (lineMove fr fc tR tC b))
             (\<lambda>tr. andThen (kindBlock (Some p) ''b'' tr (diagMove fr fc tR tC b))
             (\<lambda>tr. andThen (kindBlock (Some p) ''q'' tr
              (\<lambda>tr. andThen (lineMove fr fc tR tC b tr) (diagMove fr fc tR tC b)))
             (\<lambda>tr. andThen (kindBlock (Some p) ''n'' tr (knightMove fr fc tR tC))
             (\<lambda>tr. kindBlock (Some p) ''k'' tr (kingMove fr fc tR tC))))))))
           = Some ([(tR, tC)] @ tr', Inr (flowValue F1))" and "\<forall>(x, y)\<in>set tr'. onBoard x y"
    by blast
  then show ?thesis
    unfolding isLegalMove_def Let_def names [symmetric] cell_pieceAt [OF b8 t'] val
    using t' by (intro exI [of _ "[(tR, tC)] @ tr'"]) simp
qed

lemma setCell_onBoard:
  "board8 b \<Longrightarrow> onBoard r c \<Longrightarrow> setCell b r c (Some s) = Inr (b[nat r := (b ! nat r)[nat c := s]])"
  by (auto simp: setCell_def index_def board8_def onBoard_def list_all_iff)

lemma board8_update:
  "board8 b \<Longrightarrow> onBoard r c \<Longrightarrow> board8 (b[nat r := (b ! nat r)[nat c := s]])"
  by (auto simp: board8_def onBoard_def list_all_iff dest!: set_update_subset_insert [THEN subsetD])

lemma pieceAt_update:
  assumes "board8 b" and "onBoard r c" and "onBoard x y"
  shows "pieceAt (b[nat r := (b ! nat r)[nat c := s]]) x y = (if x = r \<and> y = c then Some s else pieceAt b x y)"
proof -
  have len: "length b = 8" "length (b ! nat r) = 8" "length (b ! nat x) = 8"
    using assms by (auto simp: board8_def onBoard_def list_all_iff)
  have idx: "nat r < 8" "nat c < 8" "nat x < 8" "nat y < 8"
    using assms by (auto simp: onBoard_def)
  have eqs: "(nat x = nat r) = (x = r)" "(nat y = nat c) = (y = c)"
    using assms by (auto simp: onBoard_def)
  show ?thesis
    using len idx eqs assms(2,3)
    by (auto simp: pieceAt_def cell_def index_def onBoard_def nth_list_update)
qed

lemma between_props:
  assumes f: "onBoard fr fc" and t: "onBoard tR tC"
    and al: "fr = tR \<or> fc = tC \<or> \<bar>tR - fr\<bar> = \<bar>tC - fc\<bar>"
    and m: "(x, y) \<in> set (between fr fc tR tC)"
  shows "onBoard x y \<and> (x \<noteq> tR \<or> y \<noteq> tC)"
proof -
  define rs where "rs = sgn (tR - fr)"
  define cs where "cs = sgn (tC - fc)"
  define d where "d = nat (max \<bar>tR - fr\<bar> \<bar>tC - fc\<bar>)"
  obtain j where j: "1 \<le> j" "j < d" and x: "x = fr + int j * rs" and y: "y = fc + int j * cs"
    using m by (auto simp: between_def rs_def cs_def d_def)
  have k: "j - 1 < d - 1" using j by simp
  have sh: "fr + int j * rs = (fr + rs) + int (j - 1) * rs" "fc + int j * cs = (fc + cs) + int (j - 1) * cs"
    using j by (simp_all add: algebra_simps of_nat_diff)
  have on: "onBoard x y"
    unfolding x y sh by (rule walk_onBoard [OF f t rs_def cs_def d_def al k])
  have tg: "tR = (fr + rs) + int (d - 1) * rs" "tC = (fc + cs) + int (d - 1) * cs"
    by (rule walk_target [OF rs_def cs_def d_def al])+
  have "x \<noteq> tR \<or> y \<noteq> tC"
  proof (rule ccontr)
    assume "\<not> (x \<noteq> tR \<or> y \<noteq> tC)"
    then have "fr + int j * rs = (fr + rs) + int (d - 1) * rs" "fc + int j * cs = (fc + cs) + int (d - 1) * cs"
      using x y tg by simp_all
    then have "int j * rs = int d * rs" "int j * cs = int d * cs"
      using j by (simp_all add: algebra_simps of_nat_diff)
    then have "rs = 0" "cs = 0" using j by auto
    then have "d = 0" by (auto simp: rs_def cs_def d_def sgn_if split: if_splits)
    then show False using j by simp
  qed
  then show ?thesis using on by simp
qed

lemma pathClear_cong:
  assumes f: "onBoard fr fc" and t: "onBoard tR tC"
    and al: "fr = tR \<or> fc = tC \<or> \<bar>tR - fr\<bar> = \<bar>tC - fc\<bar>"
    and same: "\<And>x y. onBoard x y \<Longrightarrow> x \<noteq> tR \<or> y \<noteq> tC \<Longrightarrow> pieceAt b' x y = pieceAt b x y"
  shows "pathClear b' fr fc tR tC = pathClear b fr fc tR tC"
  unfolding pathClear_def list_all_iff emptyAt_def
  using between_props [OF f t al] same by (intro ball_cong refl) auto

lemma outcome_Some [simp]: "outcome (Some (tr, x)) = Some x"
  by (simp add: outcome_def)

lemma isLegalMove_outcome:
  assumes "board8 b" and "onBoard (row f) (col f)" and "onBoard (row t) (col t)"
    and "row f \<noteq> row t \<or> col f \<noteq> col t \<or> toLowerCase p \<noteq> ''b''"
  shows "outcome (isLegalMove f t (Some p) b flag) = ret (pseudoLegal p (row f) (col f) (row t) (col t) b flag)"
  using isLegalMove_refines [OF assms, of flag] by (auto simp: ret_def)

lemma lower_letters [simp]:
  "toLowerCase ''R'' = ''r''" "toLowerCase ''r'' = ''r''"
  "toLowerCase ''B'' = ''b''" "toLowerCase ''b'' = ''b''"
  "toLowerCase ''Q'' = ''q''" "toLowerCase ''q'' = ''q''"
  "toLowerCase ''N'' = ''n''" "toLowerCase ''n'' = ''n''"
  "toLowerCase ''K'' = ''k''" "toLowerCase ''k'' = ''k''"
  by (simp_all add: toLowerCase_def upperChars_def lowerChars_def)

lemma pathClear_iff:
  "pathClear b fr fc tR tC = (\<forall>(x, y)\<in>set (between fr fc tR tC). emptyAt b x y)"
  by (simp add: pathClear_def list_all_iff)

section \<open>The scans: king, attack and check\<close>

lemma bindR_ret [simp]: "bindR (ret x) k = k x"
  by (simp add: bindR_def ret_def)

lemma bindR_throw [simp]: "bindR (throw e) k = throw e"
  by (simp add: bindR_def throw_def)

lemma ret_inject [simp]: "(ret x = ret y) = (x = y)"
  by (simp add: ret_def)

lemma ret_not_throw [simp]: "ret x \<noteq> throw e" "throw e \<noteq> ret x"
  by (simp_all add: ret_def throw_def)

lemma allSquares_onBoard: "((r, c) \<in> set allSquares) = onBoard r c"
proof -
  have "(i \<in> set indices) = (0 \<le> i \<and> i < 8)" for i
    by (auto simp: indices_def)
  then show ?thesis by (simp add: allSquares_def onBoard_def)
qed

lemma distinct_allSquares: "distinct allSquares"
  by (simp add: allSquares_def indices_def distinct_product)

lemma allSquares_split:
  assumes "onBoard r c"
  obtains pre post where "allSquares = pre @ (r, c) # post" and "(r, c) \<notin> set pre"
    and "\<forall>(x, y)\<in>set pre. onBoard x y"
proof -
  have "(r, c) \<in> set allSquares" using assms by (simp add: allSquares_onBoard)
  then obtain pre post where sp: "allSquares = pre @ (r, c) # post" "(r, c) \<notin> set pre"
    by (meson split_list_first)
  have "\<forall>(x, y)\<in>set pre. onBoard x y"
  proof (clarify)
    fix x y assume "(x, y) \<in> set pre"
    then have "(x, y) \<in> set allSquares" using arg_cong [OF sp(1), of set] by auto
    then show "onBoard x y" by (simp add: allSquares_onBoard)
  qed
  then show ?thesis using sp that by blast
qed

lemma findKingScan_none:
  assumes "board8 b" and "\<forall>(x, y)\<in>set sqs. onBoard x y \<and> pieceAt b x y \<noteq> Some king"
  shows "findKingScan b king sqs = ret None"
  using assms(2)
proof (induction sqs)
  case Nil
  show ?case by simp
next
  case (Cons sq sqs)
  obtain x y where sq: "sq = (x, y)" by (cases sq)
  have "onBoard x y" "pieceAt b x y \<noteq> Some king" using Cons.prems sq by auto
  then show ?case using Cons sq by (simp add: cell_pieceAt [OF assms(1)])
qed

lemma findKingScan_first:
  assumes "board8 b" and "\<forall>(x, y)\<in>set pre. onBoard x y \<and> pieceAt b x y \<noteq> Some king"
    and "onBoard r c" and "pieceAt b r c = Some king"
  shows "findKingScan b king (pre @ (r, c) # post) = ret (Some \<lparr>row = r, col = c\<rparr>)"
  using assms(2)
proof (induction pre)
  case Nil
  show ?case using assms(3,4) by (simp add: cell_pieceAt [OF assms(1)])
next
  case (Cons sq pre)
  obtain x y where sq: "sq = (x, y)" by (cases sq)
  have "onBoard x y" "pieceAt b x y \<noteq> Some king" using Cons.prems sq by auto
  then show ?case using Cons sq by (simp add: cell_pieceAt [OF assms(1)])
qed

lemma findKingScan_cases:
  assumes "board8 b" and "\<forall>(x, y)\<in>set sqs. onBoard x y"
  shows "findKingScan b king sqs = ret None
       \<or> (\<exists>r c. onBoard r c \<and> pieceAt b r c = Some king
                \<and> findKingScan b king sqs = ret (Some \<lparr>row = r, col = c\<rparr>))"
  using assms(2)
proof (induction sqs)
  case Nil
  show ?case by simp
next
  case (Cons sq sqs)
  obtain x y where sq: "sq = (x, y)" by (cases sq)
  have on: "onBoard x y" using Cons.prems sq by auto
  show ?case
  proof (cases "pieceAt b x y = Some king")
    case True
    then show ?thesis using on sq by (auto simp: cell_pieceAt [OF assms(1)])
  next
    case False
    then show ?thesis using Cons on sq by (simp add: cell_pieceAt [OF assms(1)])
  qed
qed

lemma attackScan_prefix:
  assumes b8: "board8 b" and q: "onBoard qr qc"
    and pre: "\<forall>(x, y)\<in>set pre. onBoard x y \<and> (x \<noteq> qr \<or> y \<noteq> qc)"
  shows "attackScan b qr qc byC (pre @ rest) = ret True
       \<or> attackScan b qr qc byC (pre @ rest) = attackScan b qr qc byC rest"
  using pre
proof (induction pre)
  case Nil
  show ?case by simp
next
  case (Cons sq pre)
  obtain x y where sq: "sq = (x, y)" by (cases sq)
  have on: "onBoard x y" and ne: "x \<noteq> qr \<or> y \<noteq> qc" using Cons.prems sq by auto
  have ih: "attackScan b qr qc byC (pre @ rest) = ret True
          \<or> attackScan b qr qc byC (pre @ rest) = attackScan b qr qc byC rest"
    using Cons by simp
  obtain p where p: "pieceAt b x y = Some p"
    using on b8 by (simp add: pieceAt_def cell_onBoard)
  have lm: "outcome (isLegalMove \<lparr>row = x, col = y\<rparr> \<lparr>row = qr, col = qc\<rparr> (Some p) b True)
             = ret (pseudoLegal p x y qr qc b True)"
    using isLegalMove_outcome [OF b8, of "\<lparr>row = x, col = y\<rparr>" "\<lparr>row = qr, col = qc\<rparr>" p True] on q ne
    by auto
  show ?case
    using ih by (auto simp: sq cell_pieceAt [OF b8 on] p lm)
qed

lemma attackScan_total:
  assumes b8: "board8 b" and q: "onBoard qr qc"
    and sqs: "\<forall>(x, y)\<in>set sqs. onBoard x y"
    and free: "\<not> ownedBy byC (pieceAt b qr qc)"
  shows "\<exists>res. attackScan b qr qc byC sqs = ret res"
  using sqs
proof (induction sqs)
  case Nil
  show ?case by auto
next
  case (Cons sq sqs)
  obtain x y where sq: "sq = (x, y)" by (cases sq)
  have on: "onBoard x y" using Cons.prems sq by auto
  obtain res where ih: "attackScan b qr qc byC sqs = ret res" using Cons by auto
  obtain p where p: "pieceAt b x y = Some p"
    using on b8 by (simp add: pieceAt_def cell_onBoard)
  show ?case
  proof (cases "ownedBy byC (Some p)")
    case True
    then have ne: "x \<noteq> qr \<or> y \<noteq> qc" using free p by auto
    have lm: "outcome (isLegalMove \<lparr>row = x, col = y\<rparr> \<lparr>row = qr, col = qc\<rparr> (Some p) b True)
               = ret (pseudoLegal p x y qr qc b True)"
      using isLegalMove_outcome [OF b8, of "\<lparr>row = x, col = y\<rparr>" "\<lparr>row = qr, col = qc\<rparr>" p True] on q ne
      by auto
    show ?thesis by (auto simp: sq cell_pieceAt [OF b8 on] p lm ih)
  next
    case False
    then show ?thesis by (auto simp: sq cell_pieceAt [OF b8 on] p ih)
  qed
qed

lemma king_not_opponents: "\<not> ownedBy (opponentOf color) (Some (kingLetter color))"
  by (cases color)
     (simp_all add: ownedBy_def opponentOf_def kingLetter_def isWhite_def isBlack_def
        toUpperCase_def toLowerCase_def upperChars_def lowerChars_def)

lemma isInCheck_total:
  assumes b8: "board8 b"
  shows "\<exists>res. isInCheck b color = ret res"
proof -
  have all: "\<forall>(x, y)\<in>set allSquares. onBoard x y" by (auto simp: allSquares_onBoard)
  from findKingScan_cases [OF b8 all, of "kingLetter color"]
  show ?thesis
  proof
    assume "findKingScan b (kingLetter color) allSquares = ret None"
    then show ?thesis by (auto simp: isInCheck_def findKing_def kingLetter_def)
  next
    assume "\<exists>r c. onBoard r c \<and> pieceAt b r c = Some (kingLetter color)
                \<and> findKingScan b (kingLetter color) allSquares = ret (Some \<lparr>row = r, col = c\<rparr>)"
    then obtain r c where on: "onBoard r c" and k: "pieceAt b r c = Some (kingLetter color)"
      and fk: "findKingScan b (kingLetter color) allSquares = ret (Some \<lparr>row = r, col = c\<rparr>)" by blast
    have "\<not> ownedBy (opponentOf color) (pieceAt b r c)" using k king_not_opponents by simp
    from attackScan_total [OF b8 on all this]
    show ?thesis using fk by (simp add: isInCheck_def findKing_def kingLetter_def isSquareAttacked_def)
  qed
qed

section \<open>Simulated moves, legal moves and clicks\<close>

lemma ownedBy_truthy: "ownedBy color v \<Longrightarrow> truthy v"
  by (auto simp: ownedBy_def isWhite_def isBlack_def)

lemma board8_putPiece: "board8 b \<Longrightarrow> onBoard r c \<Longrightarrow> board8 (putPiece b r c s)"
  unfolding putPiece_def by (rule board8_update)

lemma pieceAt_putPiece:
  "board8 b \<Longrightarrow> onBoard r c \<Longrightarrow> onBoard x y \<Longrightarrow>
   pieceAt (putPiece b r c s) x y = (if x = r \<and> y = c then Some s else pieceAt b x y)"
  unfolding putPiece_def by (rule pieceAt_update)

lemma setCell_putPiece:
  "board8 b \<Longrightarrow> onBoard r c \<Longrightarrow> setCell b r c (Some s) = Inr (putPiece b r c s)"
  unfolding putPiece_def by (rule setCell_onBoard)

lemma moveOnCopy_ret:
  assumes "board8 b" and "onBoard fr fc" and "onBoard tR tC"
  shows "moveOnCopy b fr fc tR tC (Some p) = ret (movedBoard b fr fc tR tC p)"
  using assms
  by (simp add: moveOnCopy_def movedBoard_def setCell_putPiece board8_putPiece)

lemma board8_movedBoard:
  "board8 b \<Longrightarrow> onBoard fr fc \<Longrightarrow> onBoard tR tC \<Longrightarrow> board8 (movedBoard b fr fc tR tC p)"
  by (simp add: movedBoard_def board8_putPiece)

lemma pieceAt_movedBoard:
  assumes "board8 b" and "onBoard fr fc" and "onBoard tR tC" and "onBoard x y"
  shows "pieceAt (movedBoard b fr fc tR tC p) x y
         = (if x = fr \<and> y = fc then Some [] else if x = tR \<and> y = tC then Some p else pieceAt b x y)"
  using assms by (simp add: movedBoard_def pieceAt_putPiece board8_putPiece)

lemma leavesKingSafe_iff:
  assumes "board8 b" and "onBoard fr fc" and "onBoard tR tC"
  shows "leavesKingSafe b color (Some p) fr fc tR tC
         = (isInCheck (movedBoard b fr fc tR tC p) color = ret False)"
  by (simp add: leavesKingSafe_def moveOnCopy_ret [OF assms])

lemma try_destination:
  assumes b8: "board8 b" and f: "onBoard fr fc" and t: "onBoard x y" and ne: "fr \<noteq> x \<or> fc \<noteq> y"
  obtains legal chk where
    "outcome (isLegalMove \<lparr>row = fr, col = fc\<rparr> \<lparr>row = x, col = y\<rparr> (Some p) b False) = ret legal"
    "moveOnCopy b fr fc x y (Some p) = ret (movedBoard b fr fc x y p)"
    "isInCheck (movedBoard b fr fc x y p) color = ret chk"
    "enumerated b color (Some p) fr fc x y
       = (\<not> ownedBy color (pieceAt b x y) \<and> legal \<and> \<not> chk)"
proof -
  have lm: "outcome (isLegalMove \<lparr>row = fr, col = fc\<rparr> \<lparr>row = x, col = y\<rparr> (Some p) b False)
             = ret (pseudoLegal p fr fc x y b False)"
    using isLegalMove_outcome [OF b8, of "\<lparr>row = fr, col = fc\<rparr>" "\<lparr>row = x, col = y\<rparr>" p False] f t ne
    by auto
  obtain chk where chk: "isInCheck (movedBoard b fr fc x y p) color = ret chk"
    using isInCheck_total [OF board8_movedBoard [OF b8 f t]] by blast
  have "enumerated b color (Some p) fr fc x y
       = (\<not> ownedBy color (pieceAt b x y) \<and> pseudoLegal p fr fc x y b False \<and> \<not> chk)"
    using ne by (auto simp: enumerated_def lm leavesKingSafe_iff [OF b8 f t] chk)
  then show ?thesis using that lm chk moveOnCopy_ret [OF b8 f t] by blast
qed

lemma enumerated_same_square: "\<not> enumerated b color piece fr fc fr fc"
  by (simp add: enumerated_def)

lemma collectMoves_filter:
  assumes b8: "board8 b" and f: "onBoard fr fc" and sqs: "\<forall>(x, y)\<in>set sqs. onBoard x y"
  shows "collectMoves b color (Some p) fr fc sqs acc
         = ret (acc @ map (\<lambda>(x, y). \<lparr>row = x, col = y\<rparr>)
                        (filter (\<lambda>(x, y). enumerated b color (Some p) fr fc x y) sqs))"
  using sqs
proof (induction sqs arbitrary: acc)
  case Nil
  show ?case by simp
next
  case (Cons sq sqs)
  obtain x y where sq: "sq = (x, y)" by (cases sq)
  have on: "onBoard x y" using Cons.prems sq by auto
  have ih: "\<And>acc. collectMoves b color (Some p) fr fc sqs acc
         = ret (acc @ map (\<lambda>(x, y). \<lparr>row = x, col = y\<rparr>)
                        (filter (\<lambda>(x, y). enumerated b color (Some p) fr fc x y) sqs))"
    using Cons by simp
  show ?case
  proof (cases "fr = x \<and> fc = y")
    case True
    then show ?thesis using ih by (simp add: sq enumerated_same_square)
  next
    case False
    then have ne: "fr \<noteq> x \<or> fc \<noteq> y" by blast
    obtain legal chk where
      lm: "outcome (isLegalMove \<lparr>row = fr, col = fc\<rparr> \<lparr>row = x, col = y\<rparr> (Some p) b False) = ret legal"
      and mv: "moveOnCopy b fr fc x y (Some p) = ret (movedBoard b fr fc x y p)"
      and ck: "isInCheck (movedBoard b fr fc x y p) color = ret chk"
      and en: "enumerated b color (Some p) fr fc x y = (\<not> ownedBy color (pieceAt b x y) \<and> legal \<and> \<not> chk)"
      using try_destination [OF b8 f on ne, of p color] by blast
    show ?thesis
      using False ih
      by (auto simp: sq cell_pieceAt [OF b8 on] lm mv ck en dest: ownedBy_truthy)
  qed
qed

lemma anyLegalTo_exists:
  assumes b8: "board8 b" and f: "onBoard fr fc" and sqs: "\<forall>(x, y)\<in>set sqs. onBoard x y"
  shows "anyLegalTo b color (Some p) fr fc sqs
         = ret (\<exists>(x, y)\<in>set sqs. enumerated b color (Some p) fr fc x y)"
  using sqs
proof (induction sqs)
  case Nil
  show ?case by simp
next
  case (Cons sq sqs)
  obtain x y where sq: "sq = (x, y)" by (cases sq)
  have on: "onBoard x y" using Cons.prems sq by auto
  have ih: "anyLegalTo b color (Some p) fr fc sqs
         = ret (\<exists>(x, y)\<in>set sqs. enumerated b color (Some p) fr fc x y)"
    using Cons by simp
  show ?case
  proof (cases "fr = x \<and> fc = y")
    case True
    then show ?thesis using ih by (simp add: sq enumerated_same_square)
  next
    case False
    then have ne: "fr \<noteq> x \<or> fc \<noteq> y" by blast
    obtain legal chk where
      lm: "outcome (isLegalMove \<lparr>row = fr, col = fc\<rparr> \<lparr>row = x, col = y\<rparr> (Some p) b False) = ret legal"
      and mv: "moveOnCopy b fr fc x y (Some p) = ret (movedBoard b fr fc x y p)"
      and ck: "isInCheck (movedBoard b fr fc x y p) color = ret chk"
      and en: "enumerated b color (Some p) fr fc x y = (\<not> ownedBy color (pieceAt b x y) \<and> legal \<and> \<not> chk)"
      using try_destination [OF b8 f on ne, of p color] by blast
    show ?thesis
      using False ih
      by (auto simp: sq cell_pieceAt [OF b8 on] lm mv ck en dest: ownedBy_truthy)
  qed
qed

lemma anyLegalFrom_exists:
  assumes b8: "board8 b" and sqs: "\<forall>(x, y)\<in>set sqs. onBoard x y"
  shows "anyLegalFrom b color sqs
         = ret (\<exists>(fr, fc)\<in>set sqs. ownedBy color (pieceAt b fr fc)
                  \<and> (\<exists>(x, y)\<in>set allSquares. enumerated b color (pieceAt b fr fc) fr fc x y))"
  using sqs
proof (induction sqs)
  case Nil
  show ?case by simp
next
  case (Cons sq sqs)
  obtain fr fc where sq: "sq = (fr, fc)" by (cases sq)
  have on: "onBoard fr fc" using Cons.prems sq by auto
  have ih: "anyLegalFrom b color sqs
         = ret (\<exists>(fr, fc)\<in>set sqs. ownedBy color (pieceAt b fr fc)
                  \<and> (\<exists>(x, y)\<in>set allSquares. enumerated b color (pieceAt b fr fc) fr fc x y))"
    using Cons by simp
  obtain p where p: "pieceAt b fr fc = Some p"
    using on b8 by (simp add: pieceAt_def cell_onBoard)
  have all: "\<forall>(x, y)\<in>set allSquares. onBoard x y" by (auto simp: allSquares_onBoard)
  show ?case
    using ih
    by (auto simp: sq cell_pieceAt [OF b8 on] p anyLegalTo_exists [OF b8 on all] dest: ownedBy_truthy)
qed

lemma hasAnyLegalMoves_total:
  assumes "board8 b"
  shows "\<exists>res. hasAnyLegalMoves b color = ret res"
proof -
  have all: "\<forall>(x, y)\<in>set allSquares. onBoard x y" by (auto simp: allSquares_onBoard)
  show ?thesis
    unfolding hasAnyLegalMoves_def anyLegalFrom_exists [OF assms all] by blast
qed

lemma click_without_selection:
  assumes b8: "board8 (gameBoard g)" and on: "onBoard r c" and none: "selected g = None"
  shows "handleSquareClick r c g
         = ret (if ownedBy (currentPlayer g) (pieceAt (gameBoard g) r c)
                then (g\<lparr>selected := Some \<lparr>row = r, col = c\<rparr>\<rparr>, [Render]) else (g, []))"
  using none by (auto simp: handleSquareClick_def cell_pieceAt [OF b8 on] dest: ownedBy_truthy)

lemma click_rejected:
  assumes b8: "board8 (gameBoard g)" and ok: "selectionOk g" and on: "onBoard r c"
    and sel: "selected g = Some sel" and rej: "\<not> accepted g r c"
  shows "\<exists>evs. handleSquareClick r c g = ret (g\<lparr>selected := None\<rparr>, evs)
               \<and> ScheduleCheckmateAlert \<notin> set evs"
proof -
  define b where "b = gameBoard g"
  define cp where "cp = currentPlayer g"
  have b8': "board8 b" using b8 by (simp add: b_def)
  have son: "onBoard (row sel) (col sel)" using ok sel by (simp add: selectionOk_def)
  obtain p where p: "pieceAt b (row sel) (col sel) = Some p"
    using son b8' by (simp add: pieceAt_def cell_onBoard)
  have same: "\<lparr>row = row sel, col = col sel\<rparr> = sel" by simp
  show ?thesis
  proof (cases "row sel \<noteq> r \<or> col sel \<noteq> c")
    case False
    then show ?thesis using sel
      by (simp add: handleSquareClick_def cell_pieceAt [OF b8 on])
  next
    case True
    obtain legal chk where
      lm: "outcome (isLegalMove \<lparr>row = row sel, col = col sel\<rparr> \<lparr>row = r, col = c\<rparr> (Some p) b False) = ret legal"
      and mv: "moveOnCopy b (row sel) (col sel) r c (Some p) = ret (movedBoard b (row sel) (col sel) r c p)"
      and ck: "isInCheck (movedBoard b (row sel) (col sel) r c p) cp = ret chk"
      using try_destination [OF b8' son on True, of p cp] by blast
    have safe: "leavesKingSafe b cp (Some p) (row sel) (col sel) r c = (\<not> chk)"
      by (simp add: leavesKingSafe_iff [OF b8' son on] ck)
    have rej': "\<not> ((\<not> truthy (pieceAt b r c) \<or> (cp = White \<and> isBlack (pieceAt b r c))
                    \<or> (cp = Black \<and> isWhite (pieceAt b r c))) \<and> legal \<and> \<not> chk)"
      using rej True sel by (auto simp: accepted_def b_def [symmetric] cp_def [symmetric] p lm safe)
    have sel': "selected g = Some sel" by (rule sel)
    show ?thesis
      unfolding handleSquareClick_def b_def [symmetric] cp_def [symmetric]
      using rej' True
      by (auto simp: sel' cell_pieceAt [OF b8' on] cell_pieceAt [OF b8' son] p lm mv ck)
  qed
qed

lemma click_accepted:
  assumes b8: "board8 (gameBoard g)" and ok: "selectionOk g" and on: "onBoard r c"
    and sel: "selected g = Some sel" and acc: "accepted g r c"
    and p: "pieceAt (gameBoard g) (row sel) (col sel) = Some p"
  shows "\<exists>evs inCheck anyMove.
           handleSquareClick r c g
             = ret (\<lparr>gameBoard = movedBoard (gameBoard g) (row sel) (col sel) r c p,
                     selected = None, currentPlayer = opponentOf (currentPlayer g)\<rparr>, evs)
           \<and> isInCheck (movedBoard (gameBoard g) (row sel) (col sel) r c p) (opponentOf (currentPlayer g))
               = ret inCheck
           \<and> hasAnyLegalMoves (movedBoard (gameBoard g) (row sel) (col sel) r c p)
                 (opponentOf (currentPlayer g)) = ret anyMove
           \<and> (ScheduleCheckmateAlert \<in> set evs) = (inCheck \<and> \<not> anyMove)"
proof -
  define b where "b = gameBoard g"
  define cp where "cp = currentPlayer g"
  define nb where "nb = movedBoard b (row sel) (col sel) r c p"
  have b8': "board8 b" using b8 by (simp add: b_def)
  have son: "onBoard (row sel) (col sel)" using ok sel by (simp add: selectionOk_def)
  have p': "pieceAt b (row sel) (col sel) = Some p" using p by (simp add: b_def)
  have ne: "row sel \<noteq> r \<or> col sel \<noteq> c" using acc sel by (simp add: accepted_def)
  have mv: "moveOnCopy b (row sel) (col sel) r c (Some p) = ret nb"
    unfolding nb_def by (rule moveOnCopy_ret [OF b8' son on])
  have nb8: "board8 nb" unfolding nb_def by (rule board8_movedBoard [OF b8' son on])
  have capt: "\<not> truthy (pieceAt b r c) \<or> (cp = White \<and> isBlack (pieceAt b r c))
               \<or> (cp = Black \<and> isWhite (pieceAt b r c))"
    and lm: "outcome (isLegalMove \<lparr>row = row sel, col = col sel\<rparr> \<lparr>row = r, col = c\<rparr> (Some p) b False) = ret True"
    and safe: "leavesKingSafe b cp (Some p) (row sel) (col sel) r c"
    using acc sel p' by (simp_all add: accepted_def b_def cp_def)
  have ck: "isInCheck nb cp = ret False"
    using safe by (simp add: leavesKingSafe_iff [OF b8' son on] nb_def)
  obtain inCheck where ic: "isInCheck nb (opponentOf cp) = ret inCheck"
    using isInCheck_total [OF nb8] by blast
  obtain anyMove where am: "hasAnyLegalMoves nb (opponentOf cp) = ret anyMove"
    using hasAnyLegalMoves_total [OF nb8] by blast
  have "handleSquareClick r c g
          = ret (\<lparr>gameBoard = nb, selected = None, currentPlayer = opponentOf cp\<rparr>,
                 (if inCheck \<and> \<not> anyMove then [Render, ScheduleCheckmateAlert] else []) @ [Render])"
    unfolding handleSquareClick_def b_def [symmetric] cp_def [symmetric]
    using ne capt
    by (auto simp: sel cell_pieceAt [OF b8' on] cell_pieceAt [OF b8' son] p' lm mv ck ic am Let_def)
  then show ?thesis
    using ic am unfolding nb_def b_def cp_def by (intro exI conjI) (assumption | simp)+
qed

lemma getPossibleMoves_enumerated:
  assumes b8: "board8 (gameBoard g)" and f: "onBoard fr fc"
    and own: "ownedBy (currentPlayer g) (pieceAt (gameBoard g) fr fc)"
  shows "getPossibleMoves g fr fc
         = ret (map (\<lambda>(x, y). \<lparr>row = x, col = y\<rparr>)
                 (filter (\<lambda>(x, y). enumerated (gameBoard g) (currentPlayer g) (pieceAt (gameBoard g) fr fc) fr fc x y)
                    allSquares))"
proof -
  obtain p where p: "pieceAt (gameBoard g) fr fc = Some p"
    using f b8 by (simp add: pieceAt_def cell_onBoard)
  have all: "\<forall>(x, y)\<in>set allSquares. onBoard x y" by (auto simp: allSquares_onBoard)
  show ?thesis
    using collectMoves_filter [OF b8 f all, of "currentPlayer g" p "[]"] ownedBy_truthy [OF own] p
    by (simp add: getPossibleMoves_def cell_pieceAt [OF b8 f])
qed

lemma mem_enumerated_moves:
  "(\<lparr>row = r, col = c\<rparr> \<in> set (map (\<lambda>(x, y). \<lparr>row = x, col = y\<rparr>) (filter (\<lambda>(x, y). P x y) allSquares)))
   = (onBoard r c \<and> P r c)"
  by (auto simp: allSquares_onBoard)

lemma validCell_colours:
  assumes "validCell s" and "s \<noteq> []"
  shows "isBlack (Some s) = (\<not> isWhite (Some s))"
  using assms
  by (auto simp: validCell_def isWhite_def isBlack_def truthy_def toUpperCase_def toLowerCase_def
        upperChars_def lowerChars_def)

lemma wf_board8: "wf_board b \<Longrightarrow> board8 b"
  by (simp add: wf_board_def)

lemma wf_pieceAt:
  assumes "wf_board b" and "onBoard x y"
  obtains s where "pieceAt b x y = Some s" and "validCell s"
proof -
  have len: "nat x < length b" "nat y < length (b ! nat x)"
    using assms by (auto simp: wf_board_def board8_def onBoard_def list_all_iff)
  then have "validCell (b ! nat x ! nat y)"
    using assms(1) by (auto simp: wf_board_def list_all_length)
  moreover have "pieceAt b x y = Some (b ! nat x ! nat y)"
    using assms by (simp add: pieceAt_def cell_onBoard wf_board8)
  ultimately show ?thesis using that by blast
qed

lemma capture_condition:
  assumes "wf_board b" and "onBoard r c"
  shows "(\<not> truthy (pieceAt b r c) \<or> (cp = White \<and> isBlack (pieceAt b r c))
            \<or> (cp = Black \<and> isWhite (pieceAt b r c)))
         = (\<not> ownedBy cp (pieceAt b r c))"
proof -
  obtain s where s: "pieceAt b r c = Some s" and v: "validCell s"
    using wf_pieceAt [OF assms] by blast
  show ?thesis
  proof (cases "s = []")
    case True
    then show ?thesis by (simp add: s truthy_def ownedBy_def isWhite_def isBlack_def)
  next
    case False
    then have "truthy (Some s)" by (simp add: truthy_def)
    then show ?thesis
      using validCell_colours [OF v False] by (cases cp) (auto simp: s ownedBy_def)
  qed
qed

lemma accepted_enumerated:
  assumes wf: "wf_board (gameBoard g)" and ok: "selectionOk g" and on: "onBoard r c"
    and sel: "selected g = Some sel"
  shows "accepted g r c
         = enumerated (gameBoard g) (currentPlayer g) (pieceAt (gameBoard g) (row sel) (col sel))
             (row sel) (col sel) r c"
  using sel capture_condition [OF wf on, of "currentPlayer g"]
  by (auto simp: accepted_def enumerated_def)




lemma wf_movedBoard:
  assumes wf: "wf_board b" and f: "onBoard fr fc" and t: "onBoard tR tC" and p: "validCell p"
  shows "wf_board (movedBoard b fr fc tR tC p)"
proof -
  have b8: "board8 b" by (rule wf_board8 [OF wf])
  have nb8: "board8 (movedBoard b fr fc tR tC p)" by (rule board8_movedBoard [OF b8 f t])
  have "validCell (movedBoard b fr fc tR tC p ! i ! j)" if "i < 8" "j < 8" for i j
  proof -
    have on: "onBoard (int i) (int j)" using that by (simp add: onBoard_def)
    obtain s where s: "pieceAt b (int i) (int j) = Some s" and v: "validCell s"
      using wf_pieceAt [OF wf on] by blast
    have "pieceAt (movedBoard b fr fc tR tC p) (int i) (int j)
          = Some (movedBoard b fr fc tR tC p ! i ! j)"
      using nb8 on by (simp add: pieceAt_def cell_onBoard)
    then show ?thesis
      using pieceAt_movedBoard [OF b8 f t on, of p] s v p
      by (auto simp: validCell_def split: if_splits)
  qed
  then show ?thesis
    using nb8 by (auto simp: wf_board_def board8_def list_all_length list_all_iff)
qed



lemma wf_initialBoard: "wf_board initialBoard"
  by code_simp

lemma wf_pawnOnSeventh: "wf_board pawnOnSeventh"
  by code_simp

text \<open>
  The two conditions the statements about clicks assume hold at the start of the game
  and after every click on a square of the board that returns.
\<close>

lemma initialGame_invariant: "wf_board (gameBoard initialGame) \<and> selectionOk initialGame"
  by code_simp

lemma click_invariant:
  assumes wf: "wf_board (gameBoard g)" and ok: "selectionOk g" and on: "onBoard r c"
    and step: "handleSquareClick r c g = ret (g', evs)"
  shows "wf_board (gameBoard g') \<and> selectionOk g'"
proof (cases "selected g")
  case None
  show ?thesis
    using step wf ok on unfolding click_without_selection [OF wf_board8 [OF wf] on None]
    by (auto simp: selectionOk_def split: if_splits)
next
  case (Some sel)
  have b8: "board8 (gameBoard g)" by (rule wf_board8 [OF wf])
  have son: "onBoard (row sel) (col sel)" using ok Some by (simp add: selectionOk_def)
  show ?thesis
  proof (cases "accepted g r c")
    case False
    from click_rejected [OF b8 ok on Some False]
    show ?thesis using step wf by (auto simp: selectionOk_def)
  next
    case True
    obtain p where p: "pieceAt (gameBoard g) (row sel) (col sel) = Some p" and vp: "validCell p"
      using wf_pieceAt [OF wf son] by blast
    from click_accepted [OF b8 ok on Some True p]
    show ?thesis using step wf_movedBoard [OF wf son on vp] by (auto simp: selectionOk_def)
  qed
qed

section \<open>Properties of isLegalMove\<close>

text \<open>
  C3. On an eight by eight board, for two distinct squares of the board, \<^verbatim>\<open>isLegalMove\<close>
  for a rook returns true exactly when the squares share a row or a column and every
  square strictly between them is empty; for a bishop, exactly when the absolute row and
  column deltas are equal and every square strictly between is empty; for a queen, exactly
  when one of the two alignments holds and every square strictly between is empty. The
  squares strictly between are \<open>between\<close>, whatever the direction of travel; the content
  of the destination does not occur in the condition.
\<close>

theorem slider_paths:
  assumes "board8 b" and "onBoard (row f) (col f)" and "onBoard (row t) (col t)"
    and "row f \<noteq> row t \<or> col f \<noteq> col t"
  shows "(p \<in> {''R'', ''r''} \<longrightarrow>
            outcome (isLegalMove f t (Some p) b flag)
              = ret ((row f = row t \<or> col f = col t)
                     \<and> (\<forall>(x, y)\<in>set (between (row f) (col f) (row t) (col t)). emptyAt b x y)))
       \<and> (p \<in> {''B'', ''b''} \<longrightarrow>
            outcome (isLegalMove f t (Some p) b flag)
              = ret (\<bar>row f - row t\<bar> = \<bar>col f - col t\<bar>
                     \<and> (\<forall>(x, y)\<in>set (between (row f) (col f) (row t) (col t)). emptyAt b x y)))
       \<and> (p \<in> {''Q'', ''q''} \<longrightarrow>
            outcome (isLegalMove f t (Some p) b flag)
              = ret ((row f = row t \<or> col f = col t \<or> \<bar>row f - row t\<bar> = \<bar>col f - col t\<bar>)
                     \<and> (\<forall>(x, y)\<in>set (between (row f) (col f) (row t) (col t)). emptyAt b x y)))"
proof -
  have ne: "row f \<noteq> row t \<or> col f \<noteq> col t \<or> toLowerCase p \<noteq> ''b''" using assms(4) by blast
  show ?thesis
    unfolding isLegalMove_outcome [OF assms(1-3) ne] pathClear_iff [symmetric]
    by (auto simp: pseudoLegal_def rookRule_def bishopRule_def ret_def)
qed

lemma board8_initialBoard: "board8 initialBoard"
  by code_simp

theorem slider_paths_witness:
  "outcome (isLegalMove \<lparr>row = 7, col = 0\<rparr> \<lparr>row = 4, col = 0\<rparr> (Some ''R'') initialBoard False) = ret False
   \<and> outcome (isLegalMove \<lparr>row = 5, col = 0\<rparr> \<lparr>row = 2, col = 3\<rparr> (Some ''b'') initialBoard False) = ret True
   \<and> outcome (isLegalMove \<lparr>row = 2, col = 7\<rparr> \<lparr>row = 2, col = 0\<rparr> (Some ''Q'') initialBoard False) = ret True"
proof -
  have r: "(\<forall>(x, y)\<in>set (between 7 0 4 0). emptyAt initialBoard x y) = False" by code_simp
  have b: "(\<forall>(x, y)\<in>set (between 5 0 2 3). emptyAt initialBoard x y) = True" by code_simp
  have q: "(\<forall>(x, y)\<in>set (between 2 7 2 0). emptyAt initialBoard x y) = True" by code_simp
  show ?thesis
    using slider_paths [OF board8_initialBoard, of "\<lparr>row = 7, col = 0\<rparr>" "\<lparr>row = 4, col = 0\<rparr>" "''R''" False]
          slider_paths [OF board8_initialBoard, of "\<lparr>row = 5, col = 0\<rparr>" "\<lparr>row = 2, col = 3\<rparr>" "''b''" False]
          slider_paths [OF board8_initialBoard, of "\<lparr>row = 2, col = 7\<rparr>" "\<lparr>row = 2, col = 0\<rparr>" "''Q''" False]
    by (simp add: onBoard_def r b q)
qed

text \<open>
  C4. On an eight by eight board, for squares of the board, \<^verbatim>\<open>isLegalMove\<close> for a white
  pawn returns true exactly for: one square straight up the board (row minus one) onto an
  empty square; from row 6 to row 4 in the same column when row 5 and the destination are
  empty; and one square diagonally forward when the destination holds a black piece or the
  attack flag is set. For a black pawn the same holds with row plus one, rows 1, 3 and 2
  and a white piece. A pawn on its starting row with an empty square ahead and an occupied
  square two ahead has exactly one destination in its column.
\<close>

theorem pawn_moves:
  assumes "board8 b" and "onBoard (row f) (col f)" and "onBoard (row t) (col t)"
  shows "outcome (isLegalMove f t (Some ''P'') b attackMode)
           = ret ((col f = col t \<and> emptyAt b (row t) (col t)
                     \<and> (row t = row f - 1 \<or> (row f = 6 \<and> row t = 4 \<and> emptyAt b 5 (col f))))
                  \<or> (\<bar>col t - col f\<bar> = 1 \<and> row t = row f - 1
                     \<and> (isBlack (pieceAt b (row t) (col t)) \<or> attackMode)))
       \<and> outcome (isLegalMove f t (Some ''p'') b attackMode)
           = ret ((col f = col t \<and> emptyAt b (row t) (col t)
                     \<and> (row t = row f + 1 \<or> (row f = 1 \<and> row t = 3 \<and> emptyAt b 2 (col f))))
                  \<or> (\<bar>col t - col f\<bar> = 1 \<and> row t = row f + 1
                     \<and> (isWhite (pieceAt b (row t) (col t)) \<or> attackMode)))
       \<and> (row f = 6 \<and> emptyAt b 5 (col f) \<and> \<not> emptyAt b 4 (col f) \<longrightarrow>
            (\<forall>r. onBoard r (col f) \<longrightarrow>
               (outcome (isLegalMove f \<lparr>row = r, col = col f\<rparr> (Some ''P'') b False) = ret True) = (r = 5)))
       \<and> (row f = 1 \<and> emptyAt b 2 (col f) \<and> \<not> emptyAt b 3 (col f) \<longrightarrow>
            (\<forall>r. onBoard r (col f) \<longrightarrow>
               (outcome (isLegalMove f \<lparr>row = r, col = col f\<rparr> (Some ''p'') b False) = ret True) = (r = 2)))"
proof -
  have w: "outcome (isLegalMove f s (Some ''P'') b a)
            = ret (pawnRule (- 1) 6 4 5 isBlack b (row f) (col f) (row s) (col s) a)"
    if "onBoard (row s) (col s)" for s a
    using isLegalMove_outcome [OF assms(1,2) that, of "''P''" a] by (simp add: pseudoLegal_def)
  have k: "outcome (isLegalMove f s (Some ''p'') b a)
            = ret (pawnRule 1 1 3 2 isWhite b (row f) (col f) (row s) (col s) a)"
    if "onBoard (row s) (col s)" for s a
    using isLegalMove_outcome [OF assms(1,2) that, of "''p''" a] by (simp add: pseudoLegal_def)
  have 1: "outcome (isLegalMove f t (Some ''P'') b attackMode)
           = ret ((col f = col t \<and> emptyAt b (row t) (col t)
                     \<and> (row t = row f - 1 \<or> (row f = 6 \<and> row t = 4 \<and> emptyAt b 5 (col f))))
                  \<or> (\<bar>col t - col f\<bar> = 1 \<and> row t = row f - 1
                     \<and> (isBlack (pieceAt b (row t) (col t)) \<or> attackMode)))"
    unfolding w [OF assms(3)] by (simp add: pawnRule_def)
  have 2: "outcome (isLegalMove f t (Some ''p'') b attackMode)
           = ret ((col f = col t \<and> emptyAt b (row t) (col t)
                     \<and> (row t = row f + 1 \<or> (row f = 1 \<and> row t = 3 \<and> emptyAt b 2 (col f))))
                  \<or> (\<bar>col t - col f\<bar> = 1 \<and> row t = row f + 1
                     \<and> (isWhite (pieceAt b (row t) (col t)) \<or> attackMode)))"
    unfolding k [OF assms(3)] by (simp add: pawnRule_def)
  have 3: "(outcome (isLegalMove f \<lparr>row = r, col = col f\<rparr> (Some ''P'') b False) = ret True) = (r = 5)"
    if "row f = 6" "emptyAt b 5 (col f)" "\<not> emptyAt b 4 (col f)" "onBoard r (col f)" for r
    using that w [of "\<lparr>row = r, col = col f\<rparr>" False] by (auto simp: pawnRule_def ret_def)
  have 4: "(outcome (isLegalMove f \<lparr>row = r, col = col f\<rparr> (Some ''p'') b False) = ret True) = (r = 2)"
    if "row f = 1" "emptyAt b 2 (col f)" "\<not> emptyAt b 3 (col f)" "onBoard r (col f)" for r
    using that k [of "\<lparr>row = r, col = col f\<rparr>" False] by (auto simp: pawnRule_def ret_def)
  show ?thesis using 1 2 3 4 by blast
qed

lemma board8_blockedPawnBoard: "board8 blockedPawnBoard"
  by code_simp

theorem pawn_moves_witness:
  "outcome (isLegalMove \<lparr>row = 6, col = 4\<rparr> \<lparr>row = 5, col = 4\<rparr> (Some ''P'') blockedPawnBoard False) = ret True
   \<and> outcome (isLegalMove \<lparr>row = 6, col = 4\<rparr> \<lparr>row = 4, col = 4\<rparr> (Some ''P'') blockedPawnBoard False) = ret False
   \<and> filter (\<lambda>r. outcome (isLegalMove \<lparr>row = 6, col = 4\<rparr> \<lparr>row = r, col = 4\<rparr> (Some ''P'')
                               blockedPawnBoard False) = ret True) indices = [5]
   \<and> filter (\<lambda>r. outcome (isLegalMove \<lparr>row = 1, col = 6\<rparr> \<lparr>row = r, col = 6\<rparr> (Some ''p'')
                               blockedPawnBoard False) = ret True) indices = [2]"
proof -
  have e: "emptyAt blockedPawnBoard 5 4" "\<not> emptyAt blockedPawnBoard 4 4"
          "emptyAt blockedPawnBoard 2 6" "\<not> emptyAt blockedPawnBoard 3 6"
    by code_simp+
  show ?thesis
    using pawn_moves [OF board8_blockedPawnBoard, of "\<lparr>row = 6, col = 4\<rparr>" "\<lparr>row = 5, col = 4\<rparr>" False]
          pawn_moves [OF board8_blockedPawnBoard, of "\<lparr>row = 6, col = 4\<rparr>" "\<lparr>row = 4, col = 4\<rparr>" False]
          pawn_moves [OF board8_blockedPawnBoard, of "\<lparr>row = 1, col = 6\<rparr>" "\<lparr>row = 2, col = 6\<rparr>" False]
    by (simp add: onBoard_def e indices_def)
qed

text \<open>
  C6, amended. On an eight by eight board, for every piece string and every two squares
  of the board that are distinct, or equal when the piece is not a bishop,
  \<^verbatim>\<open>isLegalMove\<close> returns a boolean and every square it reads lies on the board.
\<close>

theorem isLegalMove_terminates_on_board:
  assumes "board8 b" and "onBoard (row f) (col f)" and "onBoard (row t) (col t)"
    and "row f \<noteq> row t \<or> col f \<noteq> col t \<or> toLowerCase p \<noteq> ''b''"
  shows "\<exists>tr res. isLegalMove f t (Some p) b flag = Some (tr, Inr res) \<and> (\<forall>(x, y)\<in>set tr. onBoard x y)"
  using isLegalMove_refines [OF assms, of flag] by blast

theorem isLegalMove_terminates_on_board_witness:
  "\<exists>tr res. isLegalMove \<lparr>row = 7, col = 2\<rparr> \<lparr>row = 5, col = 4\<rparr> (Some ''B'') initialBoard False = Some (tr, Inr res)
      \<and> (\<forall>(x, y)\<in>set tr. onBoard x y)"
  using isLegalMove_terminates_on_board [OF board8_initialBoard, of "\<lparr>row = 7, col = 2\<rparr>" "\<lparr>row = 5, col = 4\<rparr>" "''B''" False]
  by (simp add: onBoard_def)

text \<open>
  C6 as stated fails for a bishop whose destination is its own square: the steps are
  \<open>(- 1, - 1)\<close>, the loop walks away from the destination, reads row \<open>- 1\<close> and throws.
\<close>

theorem bishop_same_square_leaves_board:
  "isLegalMove \<lparr>row = 0, col = 2\<rparr> \<lparr>row = 0, col = 2\<rparr> (Some ''b'') initialBoard False
     = Some ([(0, 2), (- 1, 1)], Inl TypeError)
   \<and> \<not> onBoard (- 1) 1"
  by (simp add: isLegalMove_def initialBoard_def cell_def index_def andThen_def pawnBlock_def kindBlock_def
        lowered_def lineMove_def diagMove_def diagLoop.simps truthy_def finish_def onBoard_def)

text \<open>
  C7, amended. For every piece string and every two distinct squares of the board, and
  for two eight by eight boards that agree on every square but the destination, where
  they hold pieces of the same kind and of opposite colours: \<^verbatim>\<open>isLegalMove\<close> without
  the attack flag returns the same result on both boards, unless the move is a pawn's
  one-square forward diagonal step.
\<close>

theorem destination_colour:
  assumes b8: "board8 b" and b8': "board8 b'"
    and f: "onBoard (row f) (col f)" and t: "onBoard (row t) (col t)"
    and ne: "row f \<noteq> row t \<or> col f \<noteq> col t"
    and same: "\<forall>x y. onBoard x y \<and> (x \<noteq> row t \<or> y \<noteq> col t) \<longrightarrow> pieceAt b' x y = pieceAt b x y"
    and other: "sameKindOtherColour (pieceAt b (row t) (col t)) (pieceAt b' (row t) (col t))"
    and nocapture: "\<not> (p = ''P'' \<and> \<bar>col t - col f\<bar> = 1 \<and> row t = row f - 1)"
                   "\<not> (p = ''p'' \<and> \<bar>col t - col f\<bar> = 1 \<and> row t = row f + 1)"
  shows "outcome (isLegalMove f t (Some p) b' False) = outcome (isLegalMove f t (Some p) b False)"
proof -
  have ne': "row f \<noteq> row t \<or> col f \<noteq> col t \<or> toLowerCase p \<noteq> ''b''" using ne by blast
  have same': "\<And>x y. onBoard x y \<Longrightarrow> x \<noteq> row t \<or> y \<noteq> col t \<Longrightarrow> pieceAt b' x y = pieceAt b x y"
    using same by blast
  have tgt: "emptyAt b' (row t) (col t) = emptyAt b (row t) (col t)"
    using other by (simp add: sameKindOtherColour_def emptyAt_def)
  have pc: "pathClear b' (row f) (col f) (row t) (col t) = pathClear b (row f) (col f) (row t) (col t)"
    if "row f = row t \<or> col f = col t \<or> \<bar>row f - row t\<bar> = \<bar>col f - col t\<bar>"
  proof (rule pathClear_cong [OF f t])
    show "row f = row t \<or> col f = col t \<or> \<bar>row t - row f\<bar> = \<bar>col t - col f\<bar>"
      using that by linarith
  qed (rule same')
  have line: "rookRule b' (row f) (col f) (row t) (col t) = rookRule b (row f) (col f) (row t) (col t)"
    using pc by (auto simp: rookRule_def)
  have diag: "bishopRule b' (row f) (col f) (row t) (col t) = bishopRule b (row f) (col f) (row t) (col t)"
    using pc by (auto simp: bishopRule_def)
  have mid: "emptyAt b' m (col f) = emptyAt b m (col f)" if "m \<noteq> row t" "0 \<le> m \<and> m < 8" for m
    using same' [of m "col f"] that f by (simp add: emptyAt_def onBoard_def)
  have pw: "pawnRule (- 1) 6 4 5 isBlack b' (row f) (col f) (row t) (col t) False
          = pawnRule (- 1) 6 4 5 isBlack b (row f) (col f) (row t) (col t) False" if "p = ''P''"
    using nocapture(1) that tgt mid [of 5] by (auto simp: pawnRule_def)
  have pb: "pawnRule 1 1 3 2 isWhite b' (row f) (col f) (row t) (col t) False
          = pawnRule 1 1 3 2 isWhite b (row f) (col f) (row t) (col t) False" if "p = ''p''"
    using nocapture(2) that tgt mid [of 2] by (auto simp: pawnRule_def)
  have "pseudoLegal p (row f) (col f) (row t) (col t) b' False
        = pseudoLegal p (row f) (col f) (row t) (col t) b False"
    using line diag pw pb by (simp add: pseudoLegal_def)
  then show ?thesis
    by (simp add: isLegalMove_outcome [OF b8 f t ne'] isLegalMove_outcome [OF b8' f t ne'])
qed

text \<open>
  C7 as stated fails for a pawn's capture: the white pawn on (6, 0) may step to (5, 1)
  when a black knight stands there, and may not when a white knight does.
\<close>

theorem pawn_capture_depends_on_colour:
  "outcome (isLegalMove \<lparr>row = 6, col = 0\<rparr> \<lparr>row = 5, col = 1\<rparr> (Some ''P'') blackKnightAhead False) = ret True
   \<and> outcome (isLegalMove \<lparr>row = 6, col = 0\<rparr> \<lparr>row = 5, col = 1\<rparr> (Some ''P'') whiteKnightAhead False) = ret False
   \<and> whiteKnightAhead = blackKnightAhead[5 := (blackKnightAhead ! 5)[1 := ''N'']]"
  by (simp add: isLegalMove_def blackKnightAhead_def whiteKnightAhead_def cell_def index_def andThen_def
        pawnBlock_def kindBlock_def lowered_def truthy_def finish_def ret_def isBlack_def
        toLowerCase_def upperChars_def lowerChars_def)

lemma board8_knightAhead: "board8 blackKnightAhead" "board8 whiteKnightAhead"
  by code_simp+

theorem destination_colour_witness:
  "outcome (isLegalMove \<lparr>row = 7, col = 1\<rparr> \<lparr>row = 5, col = 1\<rparr> (Some ''Q'') whiteKnightAhead False)
     = outcome (isLegalMove \<lparr>row = 7, col = 1\<rparr> \<lparr>row = 5, col = 1\<rparr> (Some ''Q'') blackKnightAhead False)"
proof -
  have upd: "whiteKnightAhead = blackKnightAhead[nat 5 := (blackKnightAhead ! nat 5)[nat 1 := ''N'']]"
    by code_simp
  have on: "onBoard 5 1" by (simp add: onBoard_def)
  have same: "\<forall>x y. onBoard x y \<and> (x \<noteq> 5 \<or> y \<noteq> 1) \<longrightarrow> pieceAt whiteKnightAhead x y = pieceAt blackKnightAhead x y"
    unfolding upd using pieceAt_update [OF board8_knightAhead(1) on] by auto
  have other: "sameKindOtherColour (pieceAt blackKnightAhead 5 1) (pieceAt whiteKnightAhead 5 1)"
    by code_simp
  show ?thesis
    using destination_colour [OF board8_knightAhead, of "\<lparr>row = 7, col = 1\<rparr>" "\<lparr>row = 5, col = 1\<rparr>" "''Q''"]
      same other
    by (simp add: onBoard_def)
qed

section \<open>Properties of the check detector and of the attack scan\<close>

text \<open>
  C8. On an eight by eight board: if no square holds the colour's king letter,
  \<^verbatim>\<open>isInCheck\<close> returns false; and if the first square holding it, in the order of the
  scan (row by row, each row column by column), is (\<open>r\<close>, \<open>c\<close>), then \<^verbatim>\<open>isInCheck\<close> is
  \<^verbatim>\<open>isSquareAttacked\<close> on that square for the opposing colour.
\<close>

theorem isInCheck_finds_king:
  assumes "board8 b"
  shows "((\<forall>(x, y)\<in>set allSquares. pieceAt b x y \<noteq> Some (kingLetter color))
            \<longrightarrow> isInCheck b color = ret False)
       \<and> (\<forall>pre r c post.
             allSquares = pre @ (r, c) # post
             \<and> pieceAt b r c = Some (kingLetter color)
             \<and> (\<forall>(x, y)\<in>set pre. pieceAt b x y \<noteq> Some (kingLetter color))
            \<longrightarrow> isInCheck b color = isSquareAttacked b r c (opponentOf color))"
proof (intro conjI impI allI)
  assume "\<forall>(x, y)\<in>set allSquares. pieceAt b x y \<noteq> Some (kingLetter color)"
  then have "\<forall>(x, y)\<in>set allSquares. onBoard x y \<and> pieceAt b x y \<noteq> Some (kingLetter color)"
    by (auto simp: allSquares_onBoard)
  from findKingScan_none [OF assms this]
  show "isInCheck b color = ret False"
    by (simp add: isInCheck_def findKing_def kingLetter_def)
next
  fix pre r c post
  assume a: "allSquares = pre @ (r, c) # post
             \<and> pieceAt b r c = Some (kingLetter color)
             \<and> (\<forall>(x, y)\<in>set pre. pieceAt b x y \<noteq> Some (kingLetter color))"
  have sets: "set allSquares = set (pre @ (r, c) # post)" using a by (intro arg_cong [of _ _ set]) blast
  have mem: "\<And>x y. (x, y) \<in> set pre \<Longrightarrow> (x, y) \<in> set allSquares" using sets by auto
  have pre: "\<forall>(x, y)\<in>set pre. onBoard x y \<and> pieceAt b x y \<noteq> Some (kingLetter color)"
    using a mem by (auto simp: allSquares_onBoard)
  have "(r, c) \<in> set allSquares" using sets by auto
  then have on: "onBoard r c" by (simp add: allSquares_onBoard)
  have "findKingScan b (kingLetter color) (pre @ (r, c) # post) = ret (Some \<lparr>row = r, col = c\<rparr>)"
    using findKingScan_first [OF assms pre on] a by blast
  then show "isInCheck b color = isSquareAttacked b r c (opponentOf color)"
    using a by (simp add: isInCheck_def findKing_def kingLetter_def)
qed

lemma board8_emptyBoard: "board8 emptyBoard"
  by code_simp

theorem isInCheck_finds_king_witness:
  "isInCheck emptyBoard White = ret False
   \<and> isInCheck initialBoard White = isSquareAttacked initialBoard 7 4 Black"
proof -
  have none: "\<forall>(x, y)\<in>set allSquares. pieceAt emptyBoard x y \<noteq> Some (kingLetter White)"
    by code_simp
  have split: "allSquares = take 60 allSquares @ (7, 4) # drop 61 allSquares"
    by code_simp
  have king: "pieceAt initialBoard 7 4 = Some (kingLetter White)"
    by code_simp
  have before: "\<forall>(x, y)\<in>set (take 60 allSquares). pieceAt initialBoard x y \<noteq> Some (kingLetter White)"
    by code_simp
  have 1: "isInCheck emptyBoard White = ret False"
    using isInCheck_finds_king [OF board8_emptyBoard, of White] none by blast
  have 2: "isInCheck initialBoard White = isSquareAttacked initialBoard 7 4 (opponentOf White)"
    using isInCheck_finds_king [OF board8_initialBoard, of White] split king before by blast
  show ?thesis using 1 2 by (simp add: opponentOf_def)
qed

text \<open>
  C10. On an eight by eight board, if the square (\<open>r\<close>, \<open>c\<close>) holds a rook, a queen or a
  king of a colour, then \<^verbatim>\<open>isSquareAttacked\<close> reports the square as attacked by that
  colour: with the attack flag, \<^verbatim>\<open>isLegalMove\<close> from the square to itself returns true
  for these pieces.
\<close>

theorem own_square_attacked:
  assumes b8: "board8 b" and on: "onBoard r c" and p: "pieceAt b r c = Some p"
    and kind: "(color = White \<and> p \<in> {''R'', ''Q'', ''K''}) \<or> (color = Black \<and> p \<in> {''r'', ''q'', ''k''})"
  shows "isSquareAttacked b r c color = ret True
       \<and> outcome (isLegalMove \<lparr>row = r, col = c\<rparr> \<lparr>row = r, col = c\<rparr> (Some p) b True) = ret True"
proof -
  obtain pre post where sp: "allSquares = pre @ (r, c) # post" and "(r, c) \<notin> set pre"
    and "\<forall>(x, y)\<in>set pre. onBoard x y"
    using allSquares_split [OF on] by blast
  then have pre: "\<forall>(x, y)\<in>set pre. onBoard x y \<and> (x \<noteq> r \<or> y \<noteq> c)" by auto
  have nb: "row \<lparr>row = r, col = c\<rparr> \<noteq> row \<lparr>row = r, col = c\<rparr> \<or> col \<lparr>row = r, col = c\<rparr> \<noteq> col \<lparr>row = r, col = c\<rparr>
            \<or> toLowerCase p \<noteq> ''b''"
    using kind by auto
  have own: "ownedBy color (Some p)" "truthy (Some p)"
    using kind
    by (auto simp: ownedBy_def isWhite_def isBlack_def truthy_def toUpperCase_def toLowerCase_def
          upperChars_def lowerChars_def)
  have empty: "between r c r c = []" by (simp add: between_def)
  have "pseudoLegal p r c r c b True" using kind
    by (auto simp: pseudoLegal_def rookRule_def kingRule_def pathClear_def empty)
  then have lm: "outcome (isLegalMove \<lparr>row = r, col = c\<rparr> \<lparr>row = r, col = c\<rparr> (Some p) b True) = ret True"
    using isLegalMove_outcome [OF b8 _ _ nb, of True] on by simp
  have here: "attackScan b r c color ((r, c) # post) = ret True"
    using own by (simp add: cell_pieceAt [OF b8 on] p lm)
  show ?thesis
    using attackScan_prefix [OF b8 on pre, of color "(r, c) # post"] here lm
    by (auto simp: isSquareAttacked_def sp)
qed

theorem own_square_attacked_witness:
  "isSquareAttacked initialBoard 7 3 White = ret True
   \<and> outcome (isLegalMove \<lparr>row = 7, col = 3\<rparr> \<lparr>row = 7, col = 3\<rparr> (Some ''Q'') initialBoard True) = ret True"
proof -
  have p: "pieceAt initialBoard 7 3 = Some ''Q''" by code_simp
  show ?thesis
    using own_square_attacked [OF board8_initialBoard _ p, of White]
    by (simp add: onBoard_def)
qed

section \<open>Properties of the legal-move enumeration and of the click handler\<close>

text \<open>
  C1. On an eight by eight board, for an origin square holding the piece \<open>p\<close> of the
  side to move: \<^verbatim>\<open>getPossibleMoves\<close> returns a list of squares of the board; for each
  of them the side to move is not in check on the board \<open>movedBoard\<close>; a square of the
  board is in the list exactly when \<^verbatim>\<open>isLegalMove\<close> returns true for it, it does not
  hold a piece of the mover's colour, and the mover is not in check on \<open>movedBoard\<close>.
  For every destination of the board, \<open>movedBoard\<close> is the board the simulation builds;
  it is eight by eight, holds the empty string on the origin, \<open>p\<close> on the destination
  and on every other square what the board held. The inner loops of
  \<^verbatim>\<open>hasAnyLegalMoves\<close> return true for this origin exactly when the list is not empty.
\<close>

theorem legal_moves_enumerated:
  assumes b8: "board8 (gameBoard g)" and f: "onBoard fr fc"
    and p: "pieceAt (gameBoard g) fr fc = Some p"
    and own: "ownedBy (currentPlayer g) (Some p)"
  shows "\<exists>moves. getPossibleMoves g fr fc = ret moves
     \<and> (\<forall>to\<in>set moves. onBoard (row to) (col to)
            \<and> isInCheck (movedBoard (gameBoard g) fr fc (row to) (col to) p) (currentPlayer g) = ret False)
     \<and> (\<forall>x y. onBoard x y \<longrightarrow>
           (\<lparr>row = x, col = y\<rparr> \<in> set moves)
           = (outcome (isLegalMove \<lparr>row = fr, col = fc\<rparr> \<lparr>row = x, col = y\<rparr> (Some p) (gameBoard g) False)
                = ret True
              \<and> \<not> ownedBy (currentPlayer g) (pieceAt (gameBoard g) x y)
              \<and> isInCheck (movedBoard (gameBoard g) fr fc x y p) (currentPlayer g) = ret False))
     \<and> (\<forall>x y. onBoard x y \<longrightarrow>
           moveOnCopy (gameBoard g) fr fc x y (Some p) = ret (movedBoard (gameBoard g) fr fc x y p)
           \<and> board8 (movedBoard (gameBoard g) fr fc x y p)
           \<and> (\<forall>u v. onBoard u v \<longrightarrow>
                 pieceAt (movedBoard (gameBoard g) fr fc x y p) u v
                 = (if u = fr \<and> v = fc then Some []
                    else if u = x \<and> v = y then Some p
                    else pieceAt (gameBoard g) u v)))
     \<and> anyLegalTo (gameBoard g) (currentPlayer g) (Some p) fr fc allSquares = ret (moves \<noteq> [])"
proof -
  define b where "b = gameBoard g"
  define c where "c = currentPlayer g"
  define moves where "moves = map (\<lambda>(x, y). \<lparr>row = x, col = y\<rparr>)
                        (filter (\<lambda>(x, y). enumerated b c (Some p) fr fc x y) allSquares)"
  have b8': "board8 b" using b8 by (simp add: b_def)
  have all: "\<forall>(x, y)\<in>set allSquares. onBoard x y" by (auto simp: allSquares_onBoard)
  have mem: "(to \<in> set moves) = (onBoard (row to) (col to) \<and> enumerated b c (Some p) fr fc (row to) (col to))"
    for to :: square
    by (cases to) (auto simp: moves_def allSquares_onBoard)
  have 1: "getPossibleMoves g fr fc = ret moves"
    using collectMoves_filter [OF b8' f all, of c p "[]"] ownedBy_truthy [OF own] p
    by (simp add: getPossibleMoves_def cell_pieceAt [OF b8 f] moves_def b_def c_def)
  have 2: "\<forall>to\<in>set moves. onBoard (row to) (col to)
            \<and> isInCheck (movedBoard b fr fc (row to) (col to) p) c = ret False"
  proof
    fix to assume "to \<in> set moves"
    then have on: "onBoard (row to) (col to)" and en: "enumerated b c (Some p) fr fc (row to) (col to)"
      by (simp_all add: mem)
    have "isInCheck (movedBoard b fr fc (row to) (col to) p) c = ret False"
      using en by (simp add: enumerated_def leavesKingSafe_iff [OF b8' f on])
    then show "onBoard (row to) (col to)
            \<and> isInCheck (movedBoard b fr fc (row to) (col to) p) c = ret False"
      using on by blast
  qed
  have 3: "(\<lparr>row = x, col = y\<rparr> \<in> set moves)
           = (outcome (isLegalMove \<lparr>row = fr, col = fc\<rparr> \<lparr>row = x, col = y\<rparr> (Some p) b False) = ret True
              \<and> \<not> ownedBy c (pieceAt b x y)
              \<and> isInCheck (movedBoard b fr fc x y p) c = ret False)" if "onBoard x y" for x y
  proof -
    have "\<not> ownedBy c (pieceAt b x y) \<Longrightarrow> fr \<noteq> x \<or> fc \<noteq> y"
      using own p by (auto simp: b_def c_def)
    then show ?thesis
      using that by (auto simp: mem enumerated_def leavesKingSafe_iff [OF b8' f that])
  qed
  have 4: "anyLegalTo b c (Some p) fr fc allSquares = ret (moves \<noteq> [])"
    unfolding anyLegalTo_exists [OF b8' f all]
    by (auto simp: moves_def filter_empty_conv)
  have 5: "moveOnCopy b fr fc x y (Some p) = ret (movedBoard b fr fc x y p)
           \<and> board8 (movedBoard b fr fc x y p)
           \<and> (\<forall>u v. onBoard u v \<longrightarrow>
                 pieceAt (movedBoard b fr fc x y p) u v
                 = (if u = fr \<and> v = fc then Some []
                    else if u = x \<and> v = y then Some p
                    else pieceAt b u v))" if "onBoard x y" for x y
    using moveOnCopy_ret [OF b8' f that] board8_movedBoard [OF b8' f that]
      pieceAt_movedBoard [OF b8' f that]
    by blast
  show ?thesis
    using 1 2 3 4 5 unfolding b_def c_def by blast
qed

lemma pinnedRook_moves:
  "getPossibleMoves \<lparr>gameBoard = pinnedRook, selected = None, currentPlayer = White\<rparr> 6 4
   = ret [\<lparr>row = 0, col = 4\<rparr>, \<lparr>row = 1, col = 4\<rparr>, \<lparr>row = 2, col = 4\<rparr>,
          \<lparr>row = 3, col = 4\<rparr>, \<lparr>row = 4, col = 4\<rparr>, \<lparr>row = 5, col = 4\<rparr>]"
  by code_simp

lemma pinnedRook_checks:
  "isInCheck pinnedRook White = ret False"
  "isInCheck (movedBoard pinnedRook 6 4 6 0 ''R'') White = ret True"
  "isInCheck (movedBoard pinnedRook 6 4 0 4 ''R'') White = ret False"
  by code_simp+

theorem legal_moves_enumerated_witness:
  "getPossibleMoves \<lparr>gameBoard = pinnedRook, selected = None, currentPlayer = White\<rparr> 6 4
     = ret [\<lparr>row = 0, col = 4\<rparr>, \<lparr>row = 1, col = 4\<rparr>, \<lparr>row = 2, col = 4\<rparr>,
            \<lparr>row = 3, col = 4\<rparr>, \<lparr>row = 4, col = 4\<rparr>, \<lparr>row = 5, col = 4\<rparr>]
   \<and> isInCheck pinnedRook White = ret False
   \<and> isInCheck (movedBoard pinnedRook 6 4 6 0 ''R'') White = ret True
   \<and> isInCheck (movedBoard pinnedRook 6 4 0 4 ''R'') White = ret False
   \<and> outcome (isLegalMove \<lparr>row = 6, col = 4\<rparr> \<lparr>row = 6, col = 0\<rparr> (Some ''R'') pinnedRook False)
       = ret True
   \<and> pieceAt (movedBoard pinnedRook 6 4 6 0 ''R'') 6 0 = Some ''R''
   \<and> pieceAt (movedBoard pinnedRook 6 4 6 0 ''R'') 6 4 = Some []
   \<and> pieceAt (movedBoard pinnedRook 6 4 6 0 ''R'') 7 4 = Some ''K''"
proof -
  define g where "g = \<lparr>gameBoard = pinnedRook, selected = None, currentPlayer = White\<rparr>"
  have b: "board8 (gameBoard g)" unfolding g_def by code_simp
  have f: "onBoard 6 4" by code_simp
  have t: "onBoard 6 0" "onBoard 7 4" by code_simp+
  have p: "pieceAt (gameBoard g) 6 4 = Some ''R''" unfolding g_def by code_simp
  have own: "ownedBy (currentPlayer g) (Some ''R'')" unfolding g_def by code_simp
  have k: "pieceAt pinnedRook 7 4 = Some ''K''" by code_simp
  have free: "\<not> ownedBy White (pieceAt pinnedRook 6 0)" by code_simp
  obtain moves where m: "getPossibleMoves g 6 4 = ret moves"
    and iff: "\<forall>x y. onBoard x y \<longrightarrow>
           (\<lparr>row = x, col = y\<rparr> \<in> set moves)
           = (outcome (isLegalMove \<lparr>row = 6, col = 4\<rparr> \<lparr>row = x, col = y\<rparr> (Some ''R'') (gameBoard g) False)
                = ret True
              \<and> \<not> ownedBy (currentPlayer g) (pieceAt (gameBoard g) x y)
              \<and> isInCheck (movedBoard (gameBoard g) 6 4 x y ''R'') (currentPlayer g) = ret False)"
    and frame: "\<forall>x y. onBoard x y \<longrightarrow>
           moveOnCopy (gameBoard g) 6 4 x y (Some ''R'') = ret (movedBoard (gameBoard g) 6 4 x y ''R'')
           \<and> board8 (movedBoard (gameBoard g) 6 4 x y ''R'')
           \<and> (\<forall>u v. onBoard u v \<longrightarrow>
                 pieceAt (movedBoard (gameBoard g) 6 4 x y ''R'') u v
                 = (if u = 6 \<and> v = 4 then Some []
                    else if u = x \<and> v = y then Some ''R''
                    else pieceAt (gameBoard g) u v))"
    using legal_moves_enumerated [OF b f p own] by blast
  have ms: "moves = [\<lparr>row = 0, col = 4\<rparr>, \<lparr>row = 1, col = 4\<rparr>, \<lparr>row = 2, col = 4\<rparr>,
                     \<lparr>row = 3, col = 4\<rparr>, \<lparr>row = 4, col = 4\<rparr>, \<lparr>row = 5, col = 4\<rparr>]"
    using m pinnedRook_moves by (simp add: g_def)
  have "\<lparr>row = 6, col = 0\<rparr> \<notin> set moves" by (simp add: ms)
  then have notall: "\<not> (outcome (isLegalMove \<lparr>row = 6, col = 4\<rparr> \<lparr>row = 6, col = 0\<rparr> (Some ''R'') pinnedRook False)
                = ret True
              \<and> isInCheck (movedBoard pinnedRook 6 4 6 0 ''R'') White = ret False)"
    using iff t(1) free by (simp add: g_def)
  have at: "pieceAt (movedBoard pinnedRook 6 4 6 0 ''R'') 6 0 = Some ''R''"
           "pieceAt (movedBoard pinnedRook 6 4 6 0 ''R'') 6 4 = Some []"
           "pieceAt (movedBoard pinnedRook 6 4 6 0 ''R'') 7 4 = Some ''K''"
    using frame t f k by (simp_all add: g_def)
  have legal: "outcome (isLegalMove \<lparr>row = 6, col = 4\<rparr> \<lparr>row = 6, col = 0\<rparr> (Some ''R'') pinnedRook False)
       = ret True"
    by code_simp
  show ?thesis
    using m ms pinnedRook_checks legal at by (simp add: g_def)
qed




text \<open>
  C5. On a board of valid squares, a click that is not a move to a square listed by
  \<^verbatim>\<open>getPossibleMoves\<close> for the selected piece (or that comes with no piece selected)
  returns normally and leaves \<^verbatim>\<open>gameBoard\<close> and \<^verbatim>\<open>currentPlayer\<close> as they were.
\<close>

theorem rejected_click_keeps_position:
  assumes wf: "wf_board (gameBoard g)" and ok: "selectionOk g" and on: "onBoard r c"
    and illegal: "\<forall>sel. selected g = Some sel \<longrightarrow>
                    (\<exists>moves. getPossibleMoves g (row sel) (col sel) = ret moves
                             \<and> \<lparr>row = r, col = c\<rparr> \<notin> set moves)"
  shows "\<exists>g' evs. handleSquareClick r c g = ret (g', evs)
           \<and> gameBoard g' = gameBoard g \<and> currentPlayer g' = currentPlayer g"
proof (cases "selected g")
  case None
  show ?thesis
    unfolding click_without_selection [OF wf_board8 [OF wf] on None] by auto
next
  case (Some sel)
  have b8: "board8 (gameBoard g)" by (rule wf_board8 [OF wf])
  have son: "onBoard (row sel) (col sel)"
    and own: "ownedBy (currentPlayer g) (pieceAt (gameBoard g) (row sel) (col sel))"
    using ok Some by (simp_all add: selectionOk_def)
  obtain moves where m: "getPossibleMoves g (row sel) (col sel) = ret moves"
    and nm: "\<lparr>row = r, col = c\<rparr> \<notin> set moves"
    using illegal Some by blast
  have ms: "moves = map (\<lambda>(x, y). \<lparr>row = x, col = y\<rparr>)
                 (filter (\<lambda>(x, y). enumerated (gameBoard g) (currentPlayer g)
                            (pieceAt (gameBoard g) (row sel) (col sel)) (row sel) (col sel) x y) allSquares)"
    using m getPossibleMoves_enumerated [OF b8 son own] by simp
  have "\<not> enumerated (gameBoard g) (currentPlayer g) (pieceAt (gameBoard g) (row sel) (col sel))
             (row sel) (col sel) r c"
    using nm on unfolding ms mem_enumerated_moves by blast
  then have "\<not> accepted g r c"
    by (simp add: accepted_enumerated [OF wf ok on Some])
  from click_rejected [OF b8 ok on Some this]
  show ?thesis by auto
qed

theorem rejected_click_keeps_position_witness:
  "\<exists>g' evs. handleSquareClick 5 0 (initialGame\<lparr>selected := Some \<lparr>row = 7, col = 0\<rparr>\<rparr>) = ret (g', evs)
      \<and> gameBoard g' = initialBoard \<and> currentPlayer g' = White"
proof -
  have ok: "selectionOk (initialGame\<lparr>selected := Some \<lparr>row = 7, col = 0\<rparr>\<rparr>)" by code_simp
  have on: "onBoard 5 0" by code_simp
  have moves: "getPossibleMoves (initialGame\<lparr>selected := Some \<lparr>row = 7, col = 0\<rparr>\<rparr>) 7 0 = ret []"
    by code_simp
  show ?thesis
    using rejected_click_keeps_position [OF _ ok on] wf_initialBoard moves
    by (simp add: initialGame_def)
qed

text \<open>
  C9. On a board of valid squares, a click on a square listed by \<^verbatim>\<open>getPossibleMoves\<close>
  for the selected piece carries out the move: afterwards the clicked square holds the
  string that was on the selected square, the selected square holds the empty string,
  every other square of the board holds what it held before, the board is still eight by
  eight, and the side to move is the opponent.
\<close>

theorem accepted_click_moves_one_piece:
  assumes wf: "wf_board (gameBoard g)" and ok: "selectionOk g" and on: "onBoard r c"
    and sel: "selected g = Some sel"
    and moves: "getPossibleMoves g (row sel) (col sel) = ret moves"
    and mem: "\<lparr>row = r, col = c\<rparr> \<in> set moves"
  shows "\<exists>g' evs. handleSquareClick r c g = ret (g', evs)
           \<and> pieceAt (gameBoard g') r c = pieceAt (gameBoard g) (row sel) (col sel)
           \<and> pieceAt (gameBoard g') (row sel) (col sel) = Some []
           \<and> (\<forall>x y. onBoard x y \<and> \<not> (x = r \<and> y = c) \<and> \<not> (x = row sel \<and> y = col sel)
                  \<longrightarrow> pieceAt (gameBoard g') x y = pieceAt (gameBoard g) x y)
           \<and> board8 (gameBoard g')
           \<and> currentPlayer g' = opponentOf (currentPlayer g)"
proof -
  have b8: "board8 (gameBoard g)" by (rule wf_board8 [OF wf])
  have son: "onBoard (row sel) (col sel)"
    and own: "ownedBy (currentPlayer g) (pieceAt (gameBoard g) (row sel) (col sel))"
    using ok sel by (simp_all add: selectionOk_def)
  obtain p where p: "pieceAt (gameBoard g) (row sel) (col sel) = Some p"
    using wf_pieceAt [OF wf son] by blast
  have ms: "moves = map (\<lambda>(x, y). \<lparr>row = x, col = y\<rparr>)
                 (filter (\<lambda>(x, y). enumerated (gameBoard g) (currentPlayer g)
                            (pieceAt (gameBoard g) (row sel) (col sel)) (row sel) (col sel) x y) allSquares)"
    using moves getPossibleMoves_enumerated [OF b8 son own] by simp
  have en: "enumerated (gameBoard g) (currentPlayer g) (pieceAt (gameBoard g) (row sel) (col sel))
             (row sel) (col sel) r c"
    using mem unfolding ms mem_enumerated_moves by blast
  then have acc: "accepted g r c"
    by (simp add: accepted_enumerated [OF wf ok on sel])
  have ne: "row sel \<noteq> r \<or> col sel \<noteq> c" using en by (simp add: enumerated_def)
  define nb where "nb = movedBoard (gameBoard g) (row sel) (col sel) r c p"
  obtain evs where
    res: "handleSquareClick r c g
          = ret (\<lparr>gameBoard = nb, selected = None, currentPlayer = opponentOf (currentPlayer g)\<rparr>, evs)"
    using click_accepted [OF b8 ok on sel acc p] unfolding nb_def by blast
  have at: "pieceAt nb x y
         = (if x = row sel \<and> y = col sel then Some [] else if x = r \<and> y = c then Some p
            else pieceAt (gameBoard g) x y)" if "onBoard x y" for x y
    unfolding nb_def by (rule pieceAt_movedBoard [OF b8 son on that])
  have nb8: "board8 nb" unfolding nb_def by (rule board8_movedBoard [OF b8 son on])
  show ?thesis
    using res at [OF on] at [OF son] at ne nb8 p
    by (intro exI [of _ "\<lparr>gameBoard = nb, selected = None, currentPlayer = opponentOf (currentPlayer g)\<rparr>"]
          exI [of _ evs]) auto
qed

theorem accepted_click_moves_one_piece_witness:
  "\<exists>g' evs. handleSquareClick 0 0
               \<lparr>gameBoard = pawnOnSeventh, selected = Some \<lparr>row = 1, col = 0\<rparr>, currentPlayer = White\<rparr>
             = ret (g', evs)
      \<and> pieceAt (gameBoard g') 0 0 = Some ''P''
      \<and> pieceAt (gameBoard g') 1 0 = Some []
      \<and> (\<forall>x y. onBoard x y \<and> \<not> (x = 0 \<and> y = 0) \<and> \<not> (x = 1 \<and> y = 0)
             \<longrightarrow> pieceAt (gameBoard g') x y = pieceAt pawnOnSeventh x y)
      \<and> board8 (gameBoard g')
      \<and> currentPlayer g' = Black"
proof -
  have ok: "selectionOk \<lparr>gameBoard = pawnOnSeventh, selected = Some \<lparr>row = 1, col = 0\<rparr>, currentPlayer = White\<rparr>"
    by code_simp
  have on: "onBoard 0 0" by code_simp
  have moves: "getPossibleMoves \<lparr>gameBoard = pawnOnSeventh, selected = Some \<lparr>row = 1, col = 0\<rparr>,
                                  currentPlayer = White\<rparr> 1 0 = ret [\<lparr>row = 0, col = 0\<rparr>]"
    by code_simp
  have p: "pieceAt pawnOnSeventh 1 0 = Some ''P''" by code_simp
  show ?thesis
    using accepted_click_moves_one_piece [OF _ ok on _ _, of "\<lparr>row = 1, col = 0\<rparr>" "[\<lparr>row = 0, col = 0\<rparr>]"]
          wf_pawnOnSeventh moves p
    by (simp add: opponentOf_def)
qed

end
